theory Spec2Isabelle
  imports Complex_Main
begin

section \<open>Python values, errors and list indexing\<close>

text \<open>
  The embedding follows \<^verbatim>\<open>hummingbird/operator_converters/_tree_commons.py\<close>.
  Python integers are \<^typ>\<open>int\<close>; floating-point numbers are abstracted to
  \<^typ>\<open>real\<close> (rounding, the cast to float32, nan and inf are not represented);
  a leaf value is a vector, \<^typ>\<open>real list\<close>.
\<close>

datatype py_value = PStr string | PInt int | PNone

type_synonym config = "string \<rightharpoonup> py_value"

text \<open>
  The exceptions the module can raise. \<open>ValueError\<close> carries the object that the
  source formats into its message (\<^verbatim>\<open>"Tree implementation {} not found".format(extra_config)\<close>).
\<close>

datatype py_error =
    ValueError config
  | KeyError int
  | AttributeError
  | IndexError
  | RuntimeError
  | RecursionError

text \<open>Python's \<^verbatim>\<open>xs[i]\<close>: a negative index counts from the end, anything else out of
  range raises IndexError.\<close>

definition py_index :: "'a list \<Rightarrow> int \<Rightarrow> nat option" where
  "py_index xs i =
     (let n = int (length xs) in
      if 0 \<le> i \<and> i < n then Some (nat i)
      else if - n \<le> i \<and> i < 0 then Some (nat (n + i))
      else None)"

definition py_get :: "'a list \<Rightarrow> int \<Rightarrow> py_error + 'a" where
  "py_get xs i = (case py_index xs i of None \<Rightarrow> Inl IndexError | Some k \<Rightarrow> Inr (xs ! k))"

definition py_set :: "'a list \<Rightarrow> int \<Rightarrow> 'a \<Rightarrow> py_error + 'a list" where
  "py_set xs i v = (case py_index xs i of None \<Rightarrow> Inl IndexError | Some k \<Rightarrow> Inr (xs[k := v]))"

text \<open>Python's slice \<^verbatim>\<open>xs[:p]\<close>, which never raises.\<close>

definition py_slice_to :: "'a list \<Rightarrow> int \<Rightarrow> 'a list" where
  "py_slice_to xs p = (if 0 \<le> p then take (nat p) xs else take (nat (int (length xs) + p)) xs)"

section \<open>The data model\<close>

text \<open>\<^verbatim>\<open>class TreeParameters\<close>: one tree as five parallel arrays (the field \<^verbatim>\<open>values\<close> is
  \<open>leaf_values\<close> here, \<open>values\<close> being a keyword of Isabelle).\<close>

record TreeParameters =
  lefts :: "int list"
  rights :: "int list"
  features :: "int list"
  thresholds :: "real list"
  leaf_values :: "real list list"

text \<open>
  \<^verbatim>\<open>class Node\<close>. Node objects are shared and mutated after they were stored, so they
  live in a store (a list of objects, an address is an index into it). A child field
  holds Python's \<open>None\<close> (never assigned), the integer \<open>-1\<close>, or a reference to a Node.
\<close>

datatype node_ref = Unset | Minus1 | Ref nat

record Node =
  node_id :: int
  node_left :: node_ref
  node_right :: node_ref
  node_feature :: "int option"
  node_threshold :: "real option"
  node_value :: "real list option"

definition new_Node :: "int \<Rightarrow> Node" where
  "new_Node i = \<lparr>node_id = i, node_left = Unset, node_right = Unset,
                 node_feature = None, node_threshold = None, node_value = None\<rparr>"

datatype TreeImpl = gemm | tree_trav | perf_tree_trav

section \<open>Strategy selection\<close>

text \<open>\<^verbatim>\<open>get_tree_implementation_by_config_or_depth(extra_config, max_depth, low=3, high=10)\<close>.
  \<open>max_depth\<close> may be \<open>None\<close>.\<close>

definition get_tree_implementation_by_config_or_depth ::
  "config \<Rightarrow> int option \<Rightarrow> int \<Rightarrow> int \<Rightarrow> py_error + TreeImpl" where
  "get_tree_implementation_by_config_or_depth extra_config max_depth low high =
     (if ''tree_implementation'' \<notin> dom extra_config then
        (case max_depth of
           None \<Rightarrow> Inr perf_tree_trav
         | Some d \<Rightarrow>
             if d \<le> low then Inr gemm
             else if d \<le> high then Inr tree_trav
             else Inr perf_tree_trav)
      else if extra_config ''tree_implementation'' = Some (PStr ''gemm'') then Inr gemm
      else if extra_config ''tree_implementation'' = Some (PStr ''tree_trav'') then Inr tree_trav
      else if extra_config ''tree_implementation'' = Some (PStr ''perf_tree_trav'')
        then Inr perf_tree_trav
      else Inl (ValueError extra_config))"

section \<open>Depth analysis\<close>

text \<open>
  \<^verbatim>\<open>_find_depth(node, current_depth)\<close>. The argument is whatever a child field held.
  Comparing a Node or \<open>None\<close> with \<open>-1\<close> is false. The two one-sided branches read
  \<^verbatim>\<open>node.l\<close> and \<^verbatim>\<open>node.r\<close>, attributes that \<^verbatim>\<open>Node\<close> does not have. The first
  argument bounds the recursion depth; running out of it is Python's RecursionError.
\<close>

fun find_depth :: "nat \<Rightarrow> Node list \<Rightarrow> node_ref \<Rightarrow> int \<Rightarrow> py_error + int" where
  "find_depth 0 h r current_depth = Inl RecursionError"
| "find_depth (Suc k) h Unset current_depth = Inl AttributeError"
| "find_depth (Suc k) h Minus1 current_depth = Inl AttributeError"
| "find_depth (Suc k) h (Ref a) current_depth =
     (let node = h ! a in
      if node_left node = Minus1 \<and> node_right node = Minus1 then Inr (current_depth + 1)
      else if node_left node \<noteq> Minus1 \<and> node_right node = Minus1 then Inl AttributeError
      else if node_right node \<noteq> Minus1 \<and> node_left node = Minus1 then Inl AttributeError
      else
        (case find_depth k h (node_left node) (current_depth + 1) of
           Inl e \<Rightarrow> Inl e
         | Inr dl \<Rightarrow>
             (case find_depth k h (node_right node) (current_depth + 1) of
                Inl e \<Rightarrow> Inl e
              | Inr dr \<Rightarrow> Inr (max dl dr))))"

text \<open>
  The loop of \<^verbatim>\<open>_find_max_depth\<close> over \<^verbatim>\<open>enumerate(nodes)\<close>: the state is the store,
  the dictionary \<open>nodes_map\<close> (node id to address), the copied child arrays that the
  loop overwrites, and \<open>current_node\<close>.
\<close>

record depth_state =
  ds_heap :: "Node list"
  ds_nodes_map :: "int \<rightharpoonup> nat"
  ds_lefts :: "int list"
  ds_rights :: "int list"
  ds_current_node :: int

definition depth_step :: "int \<times> int \<times> int \<Rightarrow> depth_state \<Rightarrow> py_error + depth_state" where
  "depth_step node st =
     (case node of (ident, left, right) \<Rightarrow>
        let st1 = (if left \<noteq> -1
                   then st\<lparr>ds_heap := ds_heap st @ [new_Node left],
                           ds_nodes_map := (ds_nodes_map st)(left \<mapsto> length (ds_heap st))\<rparr>
                   else st\<lparr>ds_lefts := (ds_lefts st)[nat ident := ident]\<rparr>);
            l_node = (if left \<noteq> -1 then Ref (length (ds_heap st)) else Minus1);
            st2 = (if right \<noteq> -1
                   then st1\<lparr>ds_heap := ds_heap st1 @ [new_Node right],
                            ds_nodes_map := (ds_nodes_map st1)(right \<mapsto> length (ds_heap st1))\<rparr>
                   else st1\<lparr>ds_rights := (ds_rights st1)[nat ident := ident]\<rparr>);
            r_node = (if right \<noteq> -1 then Ref (length (ds_heap st1)) else Minus1)
        in case ds_nodes_map st2 (ds_current_node st2) of
             None \<Rightarrow> Inl (KeyError (ds_current_node st2))
           | Some a \<Rightarrow>
               Inr (st2\<lparr>ds_heap := (ds_heap st2)
                                     [a := (ds_heap st2 ! a)\<lparr>node_left := l_node, node_right := r_node\<rparr>],
                         ds_current_node := ds_current_node st2 + 1\<rparr>))"

fun depth_loop :: "(int \<times> int \<times> int) list \<Rightarrow> depth_state \<Rightarrow> py_error + depth_state" where
  "depth_loop [] st = Inr st"
| "depth_loop (node # nodes) st =
     (case depth_step node st of Inl e \<Rightarrow> Inl e | Inr st' \<Rightarrow> depth_loop nodes st')"

text \<open>The body of the loop over the trees: the depth of one tree. The recursion bound
  handed to \<open>find_depth\<close> is one more than the number of objects in the store, which
  only a cyclic object graph exceeds.\<close>

definition tree_depth :: "TreeParameters \<Rightarrow> py_error + int" where
  "tree_depth tree =
     (let ls = lefts tree; rs = rights tree;
          ids = map int [0..<length ls];
          nodes = zip ids (zip ls rs)
      in case depth_loop nodes
                \<lparr>ds_heap = [new_Node 0], ds_nodes_map = [0 \<mapsto> 0],
                 ds_lefts = ls, ds_rights = rs, ds_current_node = 0\<rparr> of
           Inl e \<Rightarrow> Inl e
         | Inr st \<Rightarrow>
             (case ds_nodes_map st 0 of
                None \<Rightarrow> Inl (KeyError 0)
              | Some a \<Rightarrow> find_depth (Suc (length (ds_heap st))) (ds_heap st) (Ref a) (-1)))"

fun find_max_depth_from :: "int \<Rightarrow> TreeParameters list \<Rightarrow> py_error + int" where
  "find_max_depth_from depth [] = Inr depth"
| "find_max_depth_from depth (tree # trees) =
     (case tree_depth tree of
        Inl e \<Rightarrow> Inl e
      | Inr d \<Rightarrow> find_max_depth_from (max depth d) trees)"

definition find_max_depth :: "TreeParameters list \<Rightarrow> py_error + int" where
  "find_max_depth tree_parameters = find_max_depth_from 0 tree_parameters"

text \<open>\<^verbatim>\<open>get_tree_params_and_type(tree_infos, get_tree_parameters, extra_config)\<close>; the
  selector is called with its default thresholds.\<close>

definition get_tree_params_and_type ::
  "'a list \<Rightarrow> ('a \<Rightarrow> TreeParameters) \<Rightarrow> config \<Rightarrow>
     py_error + (TreeParameters list \<times> int \<times> TreeImpl)" where
  "get_tree_params_and_type tree_infos get_tree_parameters extra_config =
     (let tree_parameters = map get_tree_parameters tree_infos in
      case find_max_depth tree_parameters of
        Inl e \<Rightarrow> Inl e
      | Inr d \<Rightarrow>
          (let max_depth = max 1 d in
           case get_tree_implementation_by_config_or_depth extra_config (Some max_depth) 3 10 of
             Inl e \<Rightarrow> Inl e
           | Inr tree_type \<Rightarrow> Inr (tree_parameters, max_depth, tree_type)))"

section \<open>Tree-traversal parameters\<close>

text \<open>
  The loop of \<^verbatim>\<open>get_parameters_for_tree_trav_common\<close>. It differs from the loop of the
  depth analysis in the three fields it also stores on the Node; the local variable
  \<open>feature\<close> becomes \<open>-1\<close> when a child is absent, and only the Node receives it.
\<close>

record trav_state =
  ts_heap :: "Node list"
  ts_nodes_map :: "int \<rightharpoonup> nat"
  ts_lefts :: "int list"
  ts_rights :: "int list"
  ts_current_node :: int

definition trav_step ::
  "int \<times> int \<times> int \<times> int \<times> real \<times> real list \<Rightarrow> trav_state \<Rightarrow> py_error + trav_state" where
  "trav_step node st =
     (case node of (ident, left, right, feature, threshold, val) \<Rightarrow>
        let st1 = (if left \<noteq> -1
                   then st\<lparr>ts_heap := ts_heap st @ [new_Node left],
                           ts_nodes_map := (ts_nodes_map st)(left \<mapsto> length (ts_heap st))\<rparr>
                   else st\<lparr>ts_lefts := (ts_lefts st)[nat ident := ident]\<rparr>);
            l_node = (if left \<noteq> -1 then Ref (length (ts_heap st)) else Minus1);
            feature1 = (if left \<noteq> -1 then feature else -1);
            st2 = (if right \<noteq> -1
                   then st1\<lparr>ts_heap := ts_heap st1 @ [new_Node right],
                            ts_nodes_map := (ts_nodes_map st1)(right \<mapsto> length (ts_heap st1))\<rparr>
                   else st1\<lparr>ts_rights := (ts_rights st1)[nat ident := ident]\<rparr>);
            r_node = (if right \<noteq> -1 then Ref (length (ts_heap st1)) else Minus1);
            feature2 = (if right \<noteq> -1 then feature1 else -1)
        in case ts_nodes_map st2 (ts_current_node st2) of
             None \<Rightarrow> Inl (KeyError (ts_current_node st2))
           | Some a \<Rightarrow>
               Inr (st2\<lparr>ts_heap := (ts_heap st2)
                                     [a := (ts_heap st2 ! a)\<lparr>node_left := l_node, node_right := r_node,
                                                             node_feature := Some feature2,
                                                             node_threshold := Some threshold,
                                                             node_value := Some val\<rparr>],
                         ts_current_node := ts_current_node st2 + 1\<rparr>))"

fun trav_loop ::
  "(int \<times> int \<times> int \<times> int \<times> real \<times> real list) list \<Rightarrow> trav_state \<Rightarrow> py_error + trav_state" where
  "trav_loop [] st = Inr st"
| "trav_loop (node # nodes) st =
     (case trav_step node st of Inl e \<Rightarrow> Inl e | Inr st' \<Rightarrow> trav_loop nodes st')"

text \<open>The list \<^verbatim>\<open>[nodes_map, ids, lefts, rights, features, thresholds, values]\<close> that the
  function returns; \<open>nodes_map\<close> comes with the store its addresses point into.\<close>

record trav_params =
  tr_heap :: "Node list"
  tr_nodes_map :: "int \<rightharpoonup> nat"
  tr_ids :: "int list"
  tr_lefts :: "int list"
  tr_rights :: "int list"
  tr_features :: "int list"
  tr_thresholds :: "real list"
  tr_values :: "real list list"

text \<open>The function after its single-leaf replacement. \<^verbatim>\<open>np.array\<close> is the identity
  here (an array of rows of unequal length is numpy's array of objects).\<close>

definition tree_trav_common_body ::
  "int list \<Rightarrow> int list \<Rightarrow> int list \<Rightarrow> real list \<Rightarrow> real list list \<Rightarrow> py_error + trav_params" where
  "tree_trav_common_body ls rs fs ts vs =
     (let ids = map int [0..<length ls];
          nodes = zip ids (zip ls (zip rs (zip fs (zip ts vs))))
      in case trav_loop nodes
                \<lparr>ts_heap = [new_Node 0], ts_nodes_map = [0 \<mapsto> 0],
                 ts_lefts = ls, ts_rights = rs, ts_current_node = 0\<rparr> of
           Inl e \<Rightarrow> Inl e
         | Inr st \<Rightarrow>
             Inr \<lparr>tr_heap = ts_heap st, tr_nodes_map = ts_nodes_map st, tr_ids = ids,
                  tr_lefts = ts_lefts st, tr_rights = ts_rights st, tr_features = fs,
                  tr_thresholds = ts, tr_values = vs\<rparr>)"

definition get_parameters_for_tree_trav_common ::
  "int list \<Rightarrow> int list \<Rightarrow> int list \<Rightarrow> real list \<Rightarrow> real list list \<Rightarrow> py_error + trav_params" where
  "get_parameters_for_tree_trav_common ls rs fs ts vs =
     (if length ls = 1 then
        (case vs of
           [] \<Rightarrow> Inl IndexError
         | v # _ \<Rightarrow> tree_trav_common_body [1, -1, -1] [2, -1, -1] [0, 0, 0] [0, 0, 0] [[0], v, v])
      else tree_trav_common_body ls rs fs ts vs)"

section \<open>GEMM parameters\<close>

text \<open>The first layer: one row per node whose left entry is not \<open>-1\<close>, in array order;
  the row is one-hot at the feature over \<^verbatim>\<open>range(n_features)\<close>, the bias the threshold.\<close>

definition split_layer ::
  "int list \<Rightarrow> int list \<Rightarrow> real list \<Rightarrow> int \<Rightarrow> real list list \<times> real list" where
  "split_layer ls fs ts n_features =
     (let splits = filter (\<lambda>(left, feature, thresh). left \<noteq> -1) (zip ls (zip fs ts))
      in (map (\<lambda>(left, feature, thresh).
                 map (\<lambda>i. if int i = feature then 1 else 0) [0..<nat n_features]) splits,
          map (\<lambda>(left, feature, thresh). thresh) splits))"

text \<open>The loop \<^verbatim>\<open>for j, p in enumerate(path[:-1])\<close> at a leaf: it runs over the pairs
  \<open>(p, path[j + 1])\<close> and carries \<open>vec\<close> and \<open>num_positive\<close>.\<close>

fun path_loop ::
  "int list \<Rightarrow> int list \<Rightarrow> (int \<times> int) list \<Rightarrow> int list \<times> int \<Rightarrow> py_error + (int list \<times> int)" where
  "path_loop ls rs [] acc = Inr acc"
| "path_loop ls rs ((p, nxt) # pairs) (vec, num_positive) =
     (let num_leaves_before_p = int (count_list (py_slice_to ls p) (-1)) in
      if nxt \<in> set ls then
        (case py_set vec (p - num_leaves_before_p) 1 of
           Inl e \<Rightarrow> Inl e
         | Inr vec' \<Rightarrow> path_loop ls rs pairs (vec', num_positive + 1))
      else if nxt \<in> set rs then
        (case py_set vec (p - num_leaves_before_p) (-1) of
           Inl e \<Rightarrow> Inl e
         | Inr vec' \<Rightarrow> path_loop ls rs pairs (vec', num_positive))
      else Inl RuntimeError)"

text \<open>
  \<^verbatim>\<open>values.shape[-1]\<close> of \<^verbatim>\<open>np.array(values)\<close>: the common length of the rows, or, for
  rows of unequal length (which numpy packs into a one-dimensional array of objects),
  the number of rows.
\<close>

definition shape_last :: "real list list \<Rightarrow> nat" where
  "shape_last vs =
     (case vs of
        [] \<Rightarrow> 0
      | v # rest \<Rightarrow> if list_all (\<lambda>w. length w = length v) rest then length v else length vs)"

text \<open>
  One column of the class layer. With more than one value per leaf the vector is
  divided by its sum; numpy stores nan or inf when that sum is zero, which no real
  number stands for, so such a column is \<open>None\<close>.
\<close>

definition class_column :: "real list list \<Rightarrow> real list \<Rightarrow> real list option" where
  "class_column vs v =
     (if shape_last vs > 1 then
        (if sum_list v = 0 \<and> v \<noteq> [] then None else Some (map (\<lambda>y. y / sum_list v) v))
      else Some v)"

record gemm_state =
  gs_path :: "int list"
  gs_visited :: "bool list"
  gs_hidden_weights :: "int list list"
  gs_hidden_biases :: "int list"
  gs_class_proba :: "real list option list"

text \<open>One run of the body of \<^verbatim>\<open>while True and len(path) > 0\<close>, \<open>path\<close> not empty.\<close>

definition gemm_step ::
  "int list \<Rightarrow> int list \<Rightarrow> (int \<times> int \<times> int \<times> real \<times> real list) list \<Rightarrow> real list list \<Rightarrow> nat
     \<Rightarrow> gemm_state \<Rightarrow> py_error + gemm_state" where
  "gemm_step ls rs nodes vs n_splits st =
     (let path = gs_path st; i = last path in
      case py_set (gs_visited st) i True of
        Inl e \<Rightarrow> Inl e
      | Inr visited \<Rightarrow>
      (case py_get nodes i of
        Inl e \<Rightarrow> Inl e
      | Inr (left, right, feature, threshold, val) \<Rightarrow>
          if left = -1 \<and> right = -1 then
            (case path_loop ls rs (zip (butlast path) (tl path)) (replicate n_splits 0, 0) of
               Inl e \<Rightarrow> Inl e
             | Inr (vec, num_positive) \<Rightarrow>
                 (case py_get vs i of
                    Inl e \<Rightarrow> Inl e
                  | Inr v \<Rightarrow>
                      Inr (st\<lparr>gs_path := butlast path, gs_visited := visited,
                              gs_hidden_weights := gs_hidden_weights st @ [vec],
                              gs_hidden_biases := gs_hidden_biases st @ [num_positive],
                              gs_class_proba := gs_class_proba st @ [class_column vs v]\<rparr>)))
          else
            (case py_get visited left of
               Inl e \<Rightarrow> Inl e
             | Inr seen_left \<Rightarrow>
                 if \<not> seen_left then Inr (st\<lparr>gs_path := path @ [left], gs_visited := visited\<rparr>)
                 else
                   (case py_get visited right of
                      Inl e \<Rightarrow> Inl e
                    | Inr seen_right \<Rightarrow>
                        if \<not> seen_right
                        then Inr (st\<lparr>gs_path := path @ [right], gs_visited := visited\<rparr>)
                        else Inr (st\<lparr>gs_path := butlast path, gs_visited := visited\<rparr>)))))"

text \<open>The measure of the loop: twice the number of nodes still unvisited once the top
  of the stack is marked, plus the height of the stack.\<close>

definition gemm_measure :: "gemm_state \<Rightarrow> nat" where
  "gemm_measure st =
     (if gs_path st = [] then 0
      else case py_set (gs_visited st) (last (gs_path st)) True of
             Inl e \<Rightarrow> 0
           | Inr visited \<Rightarrow> 2 * length (filter Not visited) + length (gs_path st))"

lemma unvisited_update_le:
  "length (filter Not (xs[k := True])) \<le> length (filter Not xs)"
proof (induction xs arbitrary: k)
  case Nil
  show ?case by simp
next
  case (Cons x xs)
  show ?case using Cons.IH by (cases k) (auto intro: le_SucI)
qed

lemma unvisited_update_less:
  "k < length xs \<Longrightarrow> \<not> xs ! k \<Longrightarrow>
     Suc (length (filter Not (xs[k := True]))) = length (filter Not xs)"
proof (induction xs arbitrary: k)
  case Nil
  then show ?case by simp
next
  case (Cons x xs)
  then show ?case by (cases k) auto
qed

lemma py_index_bound: "py_index xs i = Some k \<Longrightarrow> k < length xs"
  by (auto simp add: py_index_def Let_def split: if_splits)

lemma gemm_measure_pop:
  assumes "gs_path st \<noteq> []" and "py_set (gs_visited st) (last (gs_path st)) True = Inr visited"
    and "gs_path st' = butlast (gs_path st)" and "gs_visited st' = visited"
  shows "gemm_measure st' < gemm_measure st"
proof (cases "gs_path st' = []")
  case True
  with assms show ?thesis by (simp add: gemm_measure_def)
next
  case False
  have m: "gemm_measure st = 2 * length (filter Not visited) + length (gs_path st)"
    using assms(1,2) by (simp add: gemm_measure_def)
  have shorter: "length (gs_path st') < length (gs_path st)"
    using assms(1,3) by (cases "gs_path st" rule: rev_cases) simp_all
  show ?thesis
  proof (cases "py_set visited (last (gs_path st')) True")
    case (Inl e)
    with False assms(4) have "gemm_measure st' = 0" by (simp add: gemm_measure_def)
    with m assms(1) show ?thesis by simp
  next
    case (Inr w)
    then have "length (filter Not w) \<le> length (filter Not visited)"
      by (auto simp add: py_set_def unvisited_update_le split: option.splits)
    moreover have "gemm_measure st' = 2 * length (filter Not w) + length (gs_path st')"
      using False Inr assms(4) by (simp add: gemm_measure_def)
    ultimately show ?thesis using m shorter by linarith
  qed
qed

lemma gemm_measure_push:
  assumes "gs_path st \<noteq> []" and "py_set (gs_visited st) (last (gs_path st)) True = Inr visited"
    and "py_get visited c = Inr False"
    and "gs_path st' = gs_path st @ [c]" and "gs_visited st' = visited"
  shows "gemm_measure st' < gemm_measure st"
proof -
  from assms(3) obtain k where k: "py_index visited c = Some k" and nk: "\<not> visited ! k"
    by (auto simp add: py_get_def split: option.splits)
  from k have "k < length visited" by (rule py_index_bound)
  with nk have "Suc (length (filter Not (visited[k := True]))) = length (filter Not visited)"
    by (simp add: unvisited_update_less)
  with assms k show ?thesis
    by (simp add: gemm_measure_def py_set_def)
qed

lemma gemm_step_decreases:
  assumes "gs_path st \<noteq> []" and "gemm_step ls rs nodes vs n_splits st = Inr st'"
  shows "gemm_measure st' < gemm_measure st"
proof -
  from assms(2) obtain visited where
    v: "py_set (gs_visited st) (last (gs_path st)) True = Inr visited"
    by (auto simp add: gemm_step_def Let_def split: sum.splits)
  from assms(2) v have
    "(gs_path st' = butlast (gs_path st) \<and> gs_visited st' = visited)
     \<or> (\<exists>c. py_get visited c = Inr False \<and> gs_path st' = gs_path st @ [c]
           \<and> gs_visited st' = visited)"
    by (auto simp add: gemm_step_def Let_def split: sum.splits prod.splits if_splits)
  with assms(1) v show ?thesis
    using gemm_measure_pop gemm_measure_push by blast
qed

function gemm_loop ::
  "int list \<Rightarrow> int list \<Rightarrow> (int \<times> int \<times> int \<times> real \<times> real list) list \<Rightarrow> real list list \<Rightarrow> nat
     \<Rightarrow> gemm_state \<Rightarrow> py_error + gemm_state" where
  "gemm_loop ls rs nodes vs n_splits st =
     (if gs_path st = [] then Inr st
      else case gemm_step ls rs nodes vs n_splits st of
             Inl e \<Rightarrow> Inl e
           | Inr st' \<Rightarrow> gemm_loop ls rs nodes vs n_splits st')"
  by pat_completeness auto
termination
  by (relation "measure (\<lambda>(ls, rs, nodes, vs, n_splits, st). gemm_measure st)")
    (auto simp add: gemm_step_decreases)

declare gemm_loop.simps [simp del]

text \<open>A weight array of the result: a matrix, or the mark that some entry of it is
  nan or inf.\<close>

datatype weight = Weight "real list list" | NonFinite

definition class_layer :: "real list option list \<Rightarrow> weight" where
  "class_layer class_proba =
     (if list_all (\<lambda>c. c \<noteq> None) class_proba then Weight (transpose (map the class_proba))
      else NonFinite)"

text \<open>The function after its single-leaf replacement.\<close>

definition gemm_common_body ::
  "int list \<Rightarrow> int list \<Rightarrow> int list \<Rightarrow> real list \<Rightarrow> real list list \<Rightarrow> int
     \<Rightarrow> py_error + (weight list \<times> real list option list)" where
  "gemm_common_body ls rs fs ts vs n_features =
     (case split_layer ls fs ts n_features of (w1, b1) \<Rightarrow>
        let n_splits = length w1;
            n_nodes = length ls;
            nodes = zip ls (zip rs (zip fs (zip ts vs)))
        in case gemm_loop ls rs nodes vs n_splits
                  \<lparr>gs_path = [0], gs_visited = replicate n_nodes False,
                   gs_hidden_weights = [], gs_hidden_biases = [], gs_class_proba = []\<rparr> of
             Inl e \<Rightarrow> Inl e
           | Inr st \<Rightarrow>
               Inr ([Weight w1,
                     Weight (map (map real_of_int) (gs_hidden_weights st)),
                     class_layer (gs_class_proba st)],
                    [Some b1, Some (map real_of_int (gs_hidden_biases st)), None]))"

definition get_parameters_for_gemm_common ::
  "int list \<Rightarrow> int list \<Rightarrow> int list \<Rightarrow> real list \<Rightarrow> real list list \<Rightarrow> int
     \<Rightarrow> py_error + (weight list \<times> real list option list)" where
  "get_parameters_for_gemm_common ls rs fs ts vs n_features =
     (if length ls = 1 then
        (case vs of
           [] \<Rightarrow> Inl IndexError
         | v # _ \<Rightarrow>
             gemm_common_body [1, -1, -1] [2, -1, -1] [0, 0, 0] [0, 0, 0] [[0], v, v] n_features)
      else gemm_common_body ls rs fs ts vs n_features)"

section \<open>Evaluators and reference notions\<close>

text \<open>
  Modelled from the spec: the evaluator of the tree-traversal arrays belongs to
  \<^verbatim>\<open>_tree_implementations.py\<close>, which is not among the sources. Following the spec
  (evaluation by stepping through the flattened child, feature and threshold arrays,
  where a leaf's children reference the leaf itself): a node whose two children are
  itself is a leaf and yields its value; at any other node the input goes to the left
  child when its feature is at most the threshold, to the right child otherwise. The
  first argument bounds the number of steps.
\<close>

fun trav_eval :: "nat \<Rightarrow> trav_params \<Rightarrow> real list \<Rightarrow> int \<Rightarrow> real list option" where
  "trav_eval 0 r x i = None"
| "trav_eval (Suc k) r x i =
     (if \<not> (0 \<le> i \<and> i < int (length (tr_lefts r)) \<and> i < int (length (tr_rights r))
             \<and> i < int (length (tr_features r)) \<and> i < int (length (tr_thresholds r))
             \<and> i < int (length (tr_values r))) then None
      else if tr_lefts r ! nat i = i \<and> tr_rights r ! nat i = i then Some (tr_values r ! nat i)
      else if \<not> (0 \<le> tr_features r ! nat i \<and> tr_features r ! nat i < int (length x)) then None
      else trav_eval k r x
             (if x ! nat (tr_features r ! nat i) \<le> tr_thresholds r ! nat i
              then tr_lefts r ! nat i else tr_rights r ! nat i))"

definition tree_trav_predict :: "trav_params \<Rightarrow> real list \<Rightarrow> real list option" where
  "tree_trav_predict r x = trav_eval (length (tr_lefts r)) r x 0"

text \<open>
  Modelled from the spec: the evaluator of the three GEMM layers is not among the
  sources either. Following section 4.4 of the spec: a layer is evaluated as
  \<open>input \<cdot> weight - bias\<close>; an output of the split layer that is negative or zero
  encodes "feature at most threshold" and is passed on as 1, a positive one as 0; the
  path layer is thresholded by a step function at zero; the class layer multiplies the
  resulting indicator with the class matrix and has no bias.
\<close>

definition dot :: "real list \<Rightarrow> real list \<Rightarrow> real" where
  "dot xs ys = sum_list (map2 (*) xs ys)"

definition affine :: "real list list \<Rightarrow> real list \<Rightarrow> real list \<Rightarrow> real list" where
  "affine w b x = map2 (\<lambda>row bias. dot x row - bias) w b"

definition gemm_predict ::
  "real list list \<Rightarrow> real list \<Rightarrow> real list list \<Rightarrow> real list \<Rightarrow> real list list \<Rightarrow> real list
     \<Rightarrow> real list" where
  "gemm_predict w1 b1 w2 b2 w3 x =
     (let decisions = map (\<lambda>z. if z \<le> 0 then 1 else 0) (affine w1 b1 x);
          active = map (\<lambda>z. if 0 \<le> z then 1 else 0) (affine w2 b2 decisions)
      in map (dot active) w3)"

text \<open>What a child array looks like once every \<open>-1\<close> is replaced by the index it stands at.\<close>

definition self_ref :: "int list \<Rightarrow> int list" where
  "self_ref xs = map (\<lambda>i. if xs ! i = -1 then int i else xs ! i) [0..<length xs]"

text \<open>A value vector divided by its sum, and the class column expected for a leaf value:
  a vector of more than one entry is divided by its sum (there is no such column of
  real numbers when that sum is zero), any other vector is taken as it is.\<close>

definition normalized :: "real list \<Rightarrow> real list" where
  "normalized v = map (\<lambda>y. y / sum_list v) v"

definition expected_column :: "real list \<Rightarrow> real list option" where
  "expected_column v =
     (if 1 < length v then (if sum_list v = 0 then None else Some (normalized v)) else Some v)"

text \<open>The layers of the three-node tree that stands for a single leaf, up to the class
  layer \<open>w3\<close>: one split on feature 0 with bias 0, the path rows \<open>[1]\<close> (left leaf, one
  left turn) and \<open>[-1]\<close> (right leaf, none), no bias on the class layer.\<close>

definition single_leaf_layers :: "int \<Rightarrow> weight \<Rightarrow> weight list \<times> real list option list" where
  "single_leaf_layers n_features w3 =
     ([Weight [map (\<lambda>i. if int i = 0 then 1 else 0) [0..<nat n_features]],
       Weight [[1], [-1]], w3],
      [Some [0], Some [1, 0], None])"

section \<open>Strategy selection: theorems\<close>

text \<open>
  C2. With no \<open>tree_implementation\<close> key in the configuration and the default thresholds
  3 and 10, the selector returns gemm for a depth up to 3, tree_trav for a depth above 3
  and up to 10, and perf_tree_trav for a depth above 10.
\<close>

theorem selector_by_depth:
  assumes "''tree_implementation'' \<notin> dom extra_config"
  shows "get_tree_implementation_by_config_or_depth extra_config (Some d) 3 10 =
           Inr (if d \<le> 3 then gemm else if d \<le> 10 then tree_trav else perf_tree_trav)"
  using assms by (simp add: get_tree_implementation_by_config_or_depth_def)

theorem selector_by_depth_witness:
  "get_tree_implementation_by_config_or_depth Map.empty (Some 3) 3 10 = Inr gemm
   \<and> get_tree_implementation_by_config_or_depth Map.empty (Some 7) 3 10 = Inr tree_trav
   \<and> get_tree_implementation_by_config_or_depth Map.empty (Some 11) 3 10 = Inr perf_tree_trav"
  using selector_by_depth [of Map.empty 3] selector_by_depth [of Map.empty 7]
    selector_by_depth [of Map.empty 11]
  by simp

text \<open>
  C7. With a \<open>tree_implementation\<close> entry in the configuration, whatever the depth and
  the thresholds, the selector returns the strategy of that name when the entry is the
  string gemm, tree_trav or perf_tree_trav; for every other entry it raises ValueError,
  whose message is built from the configuration that holds the offending entry.
\<close>

theorem selector_by_config:
  assumes "extra_config ''tree_implementation'' = Some v"
  shows "get_tree_implementation_by_config_or_depth extra_config max_depth low high =
           (if v = PStr ''gemm'' then Inr gemm
            else if v = PStr ''tree_trav'' then Inr tree_trav
            else if v = PStr ''perf_tree_trav'' then Inr perf_tree_trav
            else Inl (ValueError extra_config))"
  using assms by (auto simp add: get_tree_implementation_by_config_or_depth_def)

theorem selector_by_config_witness:
  "get_tree_implementation_by_config_or_depth
       [''tree_implementation'' \<mapsto> PStr ''tree_trav''] (Some 42) 3 10 = Inr tree_trav
   \<and> get_tree_implementation_by_config_or_depth
       [''tree_implementation'' \<mapsto> PStr ''bogus''] (Some 2) 3 10 =
       Inl (ValueError [''tree_implementation'' \<mapsto> PStr ''bogus''])"
  using selector_by_config [of "[''tree_implementation'' \<mapsto> PStr ''tree_trav'']" "PStr ''tree_trav''" "Some 42" 3 10]
    selector_by_config [of "[''tree_implementation'' \<mapsto> PStr ''bogus'']" "PStr ''bogus''" "Some 2" 3 10]
  by simp

section \<open>Depth analysis: theorems\<close>

lemma find_depth_one_sided:
  assumes "(node_left (h ! a) = Minus1) \<noteq> (node_right (h ! a) = Minus1)"
  shows "find_depth (Suc k) h (Ref a) current_depth = Inl AttributeError"
  using assms by (auto simp add: Let_def)

text \<open>
  C6. A root whose left child is node 1 and whose right child is absent
  (\<open>lefts = [1, -1]\<close>, \<open>rights = [-1, -1]\<close>): the one-sided branch of \<open>_find_depth\<close> reads
  an attribute that Node does not have, and the depth analysis raises AttributeError
  instead of returning the depth of the real child.
\<close>

theorem find_max_depth_one_sided:
  "find_max_depth
     [\<lparr>lefts = [1, -1], rights = [-1, -1], features = [0, -1],
       thresholds = [0, 0], leaf_values = [[0], [1]]\<rparr>] = Inl AttributeError"
  by (simp add: find_max_depth_def tree_depth_def depth_step_def new_Node_def Let_def upt_rec)

section \<open>Tree-traversal parameters: theorems\<close>

lemma trav_loop_append:
  "trav_loop (xs @ ys) st =
     (case trav_loop xs st of Inl e \<Rightarrow> Inl e | Inr st' \<Rightarrow> trav_loop ys st')"
  by (induction xs arbitrary: st) (auto split: sum.splits)

lemma trav_step_arrays:
  assumes "trav_step (ident, left, right, rest) st = Inr st'"
  shows "ts_lefts st' = (if left = -1 then (ts_lefts st)[nat ident := ident] else ts_lefts st)"
    and "ts_rights st' = (if right = -1 then (ts_rights st)[nat ident := ident] else ts_rights st)"
  using assms
  by (auto simp add: trav_step_def Let_def split: option.splits if_splits prod.splits)

lemma trav_loop_prefix_arrays:
  assumes "length rs = length ls" and "length rest = length ls"
    and "trav_loop (take k (zip (map int [0..<length ls]) (zip ls (zip rs rest))))
           \<lparr>ts_heap = h0, ts_nodes_map = m0, ts_lefts = ls, ts_rights = rs,
            ts_current_node = c0\<rparr> = Inr st"
  shows "ts_lefts st = map (\<lambda>i. if i < k \<and> ls ! i = -1 then int i else ls ! i) [0..<length ls]
       \<and> ts_rights st = map (\<lambda>i. if i < k \<and> rs ! i = -1 then int i else rs ! i) [0..<length ls]"
  using assms(3)
proof (induction k arbitrary: st)
  case 0
  then show ?case using assms(1) by (auto intro: nth_equalityI)
next
  case (Suc k)
  let ?nodes = "zip (map int [0..<length ls]) (zip ls (zip rs rest))"
  show ?case
  proof (cases "k < length ls")
    case False
    then have "take (Suc k) ?nodes = take k ?nodes" by simp
    with Suc show ?thesis using False by (auto simp del: take_zip)
  next
    case True
    then have split: "take (Suc k) ?nodes = take k ?nodes @ [(int k, ls ! k, rs ! k, rest ! k)]"
      using assms(1,2) by (simp add: take_Suc_conv_app_nth del: take_zip)
    from Suc.prems obtain st1 where
      st1: "trav_loop (take k ?nodes) \<lparr>ts_heap = h0, ts_nodes_map = m0, ts_lefts = ls,
              ts_rights = rs, ts_current_node = c0\<rparr> = Inr st1"
      and step: "trav_step (int k, ls ! k, rs ! k, rest ! k) st1 = Inr st"
      unfolding split trav_loop_append by (auto split: sum.splits)
    from Suc.IH [OF st1] trav_step_arrays [OF step] True assms(1) show ?thesis
      by (auto intro!: nth_equalityI simp add: nth_list_update less_Suc_eq)
  qed
qed

lemma tree_trav_common_body_arrays:
  assumes "tree_trav_common_body ls rs fs ts vs = Inr r"
    and "length rs = length ls" and "length fs = length ls" and "length ts = length ls"
    and "length vs = length ls"
  shows "tr_lefts r = self_ref ls \<and> tr_rights r = self_ref rs \<and> tr_features r = fs
       \<and> tr_thresholds r = ts \<and> tr_values r = vs"
proof -
  let ?nodes = "zip (map int [0..<length ls]) (zip ls (zip rs (zip fs (zip ts vs))))"
  let ?st0 = "\<lparr>ts_heap = [new_Node 0], ts_nodes_map = [0 \<mapsto> 0], ts_lefts = ls,
               ts_rights = rs, ts_current_node = 0\<rparr>"
  from assms(1) obtain st where st: "trav_loop ?nodes ?st0 = Inr st"
    and r: "r = \<lparr>tr_heap = ts_heap st, tr_nodes_map = ts_nodes_map st,
                 tr_ids = map int [0..<length ls], tr_lefts = ts_lefts st,
                 tr_rights = ts_rights st, tr_features = fs, tr_thresholds = ts,
                 tr_values = vs\<rparr>"
    by (auto simp add: tree_trav_common_body_def Let_def split: sum.splits)
  have "take (length ls) ?nodes = ?nodes" using assms(2-5) by simp
  with st have "trav_loop (take (length ls) ?nodes) ?st0 = Inr st" by simp
  from trav_loop_prefix_arrays [OF assms(2) _ this] assms(2-5)
  have "ts_lefts st = self_ref ls \<and> ts_rights st = self_ref rs"
    by (simp add: self_ref_def)
  with r show ?thesis by simp
qed

lemma self_ref_no_sentinel: "-1 \<notin> set (self_ref xs)"
  by (auto simp add: self_ref_def)

text \<open>
  C9, as the code has it. When \<open>get_parameters_for_tree_trav_common\<close> returns on arrays
  of equal length, the returned child arrays are the input child arrays (those of the
  three-node replacement for a single leaf) with every \<open>-1\<close> replaced by the index it
  stands at, so a leaf \<open>i\<close> has \<open>lefts[i] = i\<close> and \<open>rights[i] = i\<close> and no \<open>-1\<close> remains;
  the returned feature array is the input feature array, unchanged.
\<close>

theorem tree_trav_arrays_self_reference:
  assumes "get_parameters_for_tree_trav_common ls rs fs ts vs = Inr r"
    and "length rs = length ls" and "length fs = length ls" and "length ts = length ls"
    and "length vs = length ls"
  shows "tr_lefts r = self_ref (if length ls = 1 then [1, -1, -1] else ls)
       \<and> tr_rights r = self_ref (if length ls = 1 then [2, -1, -1] else rs)
       \<and> tr_features r = (if length ls = 1 then [0, 0, 0] else fs)
       \<and> -1 \<notin> set (tr_lefts r) \<and> -1 \<notin> set (tr_rights r)"
proof (cases "length ls = 1")
  case True
  with assms(1,5) obtain v where
    "tree_trav_common_body [1, -1, -1] [2, -1, -1] [0, 0, 0] [0, 0, 0] [[0], v, v] = Inr r"
    by (auto simp add: get_parameters_for_tree_trav_common_def split: list.splits)
  from tree_trav_common_body_arrays [OF this] True show ?thesis
    using self_ref_no_sentinel by simp
next
  case False
  with assms(1) have "tree_trav_common_body ls rs fs ts vs = Inr r"
    by (simp add: get_parameters_for_tree_trav_common_def)
  from tree_trav_common_body_arrays [OF this assms(2-5)] False show ?thesis
    using self_ref_no_sentinel by simp
qed

theorem tree_trav_arrays_self_reference_witness:
  "\<exists>r. get_parameters_for_tree_trav_common
          [1, 3, -1, -1, -1] [2, 4, -1, -1, -1] [0, 1, -2, -2, -2] [5, 7, -2, -2, -2]
          [[0], [0], [1], [2], [3]] = Inr r
       \<and> tr_lefts r = [1, 3, 2, 3, 4] \<and> tr_rights r = [2, 4, 2, 3, 4]
       \<and> tr_features r = [0, 1, -2, -2, -2]"
proof -
  obtain r where r: "get_parameters_for_tree_trav_common
          [1, 3, -1, -1, -1] [2, 4, -1, -1, -1] [0, 1, -2, -2, -2] [5, 7, -2, -2, -2]
          [[0], [0], [1], [2], [3]] = Inr r"
    by (simp add: get_parameters_for_tree_trav_common_def tree_trav_common_body_def
        trav_step_def new_Node_def Let_def upt_rec)
  from tree_trav_arrays_self_reference [OF r] show ?thesis
    using r by (simp add: self_ref_def upt_rec)
qed

theorem tree_trav_features_counterexample:
  "\<exists>r. get_parameters_for_tree_trav_common
          [1, -1, -1] [2, -1, -1] [0, -2, -2] [5, -2, -2] [[0], [1], [2]] = Inr r
       \<and> tr_lefts r ! 1 = 1 \<and> tr_rights r ! 1 = 1 \<and> tr_features r ! 1 \<noteq> -1"
  by (simp add: get_parameters_for_tree_trav_common_def tree_trav_common_body_def
      trav_step_def new_Node_def Let_def upt_rec)

section \<open>GEMM parameters: no check of the array lengths\<close>

lemma zip_take_length: "zip xs ys = zip xs (take (length xs) ys)"
proof (induction xs arbitrary: ys)
  case Nil
  show ?case by simp
next
  case (Cons x xs)
  show ?case using Cons.IH by (cases ys) auto
qed

lemma zip3_take_mid:
  "zip xs (zip (take (length xs) ys) zs) = zip xs (zip ys zs)"
proof -
  have "zip xs (zip (take (length xs) ys) zs)
          = zip xs (take (length xs) (zip (take (length xs) ys) zs))"
    by (rule zip_take_length)
  also have "\<dots> = zip xs (take (length xs) (zip ys zs))" by (simp add: take_zip)
  also have "\<dots> = zip xs (zip ys zs)" by (rule zip_take_length [symmetric])
  finally show ?thesis .
qed

lemma gemm_common_body_surplus:
  "gemm_common_body ls rs (take (length ls) fs) (take (length ls) ts) vs n_features
     = gemm_common_body ls rs fs ts vs n_features"
proof -
  have "zip ls (zip (take (length ls) fs) (take (length ls) ts)) = zip ls (zip fs ts)"
    by (metis take_zip zip_take_length)
  then have layer: "split_layer ls (take (length ls) fs) (take (length ls) ts) n_features
                      = split_layer ls fs ts n_features"
    by (simp add: split_layer_def)
  have a: "zip ls (zip rs (zip (take (length ls) fs) (zip (take (length ls) ts) vs)))
        = zip ls (take (length ls) (zip rs (zip (take (length ls) fs) (zip (take (length ls) ts) vs))))"
    by (rule zip_take_length)
  have b: "zip ls (zip rs (zip fs (zip ts vs)))
        = zip ls (take (length ls) (zip rs (zip fs (zip ts vs))))"
    by (rule zip_take_length)
  have nodes: "zip ls (zip rs (zip (take (length ls) fs) (zip (take (length ls) ts) vs)))
        = zip ls (zip rs (zip fs (zip ts vs)))"
    unfolding a b by (simp add: take_zip)
  show ?thesis
    unfolding gemm_common_body_def layer nodes ..
qed

text \<open>
  C10, as the code has it. \<open>get_parameters_for_gemm_common\<close> does not compare the
  lengths of its arrays: it zips them, so the entries of \<open>features\<close> and \<open>thresholds\<close>
  beyond the length of \<open>lefts\<close> are ignored, and the result is the one for the arrays cut
  to that length.
\<close>

theorem gemm_ignores_surplus_entries:
  "get_parameters_for_gemm_common ls rs fs ts vs n_features
     = get_parameters_for_gemm_common ls rs (take (length ls) fs) (take (length ls) ts) vs
         n_features"
  by (simp add: get_parameters_for_gemm_common_def gemm_common_body_surplus)

theorem gemm_length_mismatch_counterexample:
  "get_parameters_for_gemm_common [1, -1, -1] [2, -1, -1] [0, 0, 0] [5, 0, 0, 99]
       [[0], [1], [2]] 1
     = Inr ([Weight [[1]], Weight [[1], [-1]], Weight [[1, 2]]],
            [Some [5], Some [1, 0], None])"
  by (simp add: get_parameters_for_gemm_common_def gemm_common_body_def split_layer_def
      gemm_loop.simps gemm_step_def py_set_def py_get_def py_index_def py_slice_to_def
      class_layer_def class_column_def shape_last_def Let_def upt_rec)

section \<open>The single-leaf replacement\<close>

lemma single_leaf_trav_body:
  "\<exists>r. tree_trav_common_body [1, -1, -1] [2, -1, -1] [0, 0, 0] [0, 0, 0] [[0], v, v] = Inr r
       \<and> tr_lefts r = [1, 1, 2] \<and> tr_rights r = [2, 1, 2] \<and> tr_features r = [0, 0, 0]
       \<and> tr_thresholds r = [0, 0, 0] \<and> tr_values r = [[0], v, v]"
  by (simp add: tree_trav_common_body_def trav_step_def new_Node_def Let_def upt_rec)

lemma single_leaf_trav_eval:
  assumes "tr_lefts r = [1, 1, 2]" and "tr_rights r = [2, 1, 2]" and "tr_features r = [0, 0, 0]"
    and "tr_thresholds r = [0, 0, 0]" and "tr_values r = [[0], v, v]" and "x \<noteq> []"
  shows "tree_trav_predict r x = Some v"
  using assms by (simp add: tree_trav_predict_def numeral_3_eq_3)

lemma single_leaf_gemm_body:
  "gemm_common_body [1, -1, -1] [2, -1, -1] [0, 0, 0] [0, 0, 0] [[0], v, v] n_features
     = Inr ([Weight [map (\<lambda>i. if int i = 0 then 1 else 0) [0..<nat n_features]],
             Weight [[1], [-1]],
             class_layer [class_column [[0], v, v] v, class_column [[0], v, v] v]],
            [Some [0], Some [1, 0], None])"
  by (simp add: gemm_common_body_def split_layer_def
      gemm_loop.simps gemm_step_def py_set_def py_get_def py_index_def py_slice_to_def
      Let_def)

lemma transpose_pair: "transpose [c, c] = map (\<lambda>y. [y, y]) c"
  by (induction c) simp_all

lemma single_leaf_gemm_eval:
  "gemm_predict [row] [0] [[1], [-1]] [1, 0] (transpose [c, c]) x = c"
  by (simp add: gemm_predict_def affine_def dot_def transpose_pair Let_def map_idI)

lemma class_column_replacement:
  "class_column [[0], v, v] v = expected_column v"
proof (cases "length v = 1")
  case True
  then show ?thesis by (simp add: class_column_def expected_column_def shape_last_def)
next
  case False
  then have "shape_last [[0], v, v] = 3" by (simp add: shape_last_def)
  with False show ?thesis
    by (cases v) (auto simp add: class_column_def expected_column_def normalized_def)
qed

lemma single_leaf_gemm_layers:
  "gemm_common_body [1, -1, -1] [2, -1, -1] [0, 0, 0] [0, 0, 0] [[0], v, v] n_features
     = Inr (single_leaf_layers n_features
              (case expected_column v of None \<Rightarrow> NonFinite
               | Some c \<Rightarrow> Weight (transpose [c, c])))"
  by (cases "expected_column v")
    (simp_all add: single_leaf_gemm_body class_column_replacement single_leaf_layers_def
      class_layer_def)

text \<open>
  C8, as the code has it. For arrays of length one with leaf value \<open>v\<close>, both functions
  work on the three-node tree instead: root 0 splits on feature 0 at threshold 0 and its
  children 1 and 2 are leaves that carry \<open>v\<close>. Stepping through the traversal arrays
  yields \<open>v\<close> for every input that has a feature 0. The GEMM layers are those of that
  tree, but their class columns are built from the value rows \<open>[0.0]\<close>, \<open>v\<close>, \<open>v\<close>: for a
  \<open>v\<close> of at most one entry both columns are \<open>v\<close> and the layers evaluate to \<open>v\<close> for
  every input; for a \<open>v\<close> of more than one entry both columns are \<open>v\<close> divided by its sum,
  and the layers evaluate to that quotient for every input (the class layer is not
  finite when the sum is zero).
\<close>

theorem single_leaf_replacement:
  assumes "length ls = 1" and "vs = v # rest"
  shows "(\<exists>r. get_parameters_for_tree_trav_common ls rs fs ts vs = Inr r
            \<and> tr_lefts r = [1, 1, 2] \<and> tr_rights r = [2, 1, 2] \<and> tr_features r = [0, 0, 0]
            \<and> tr_thresholds r = [0, 0, 0] \<and> tr_values r = [[0], v, v]
            \<and> (x \<noteq> [] \<longrightarrow> tree_trav_predict r x = Some v))
       \<and> (length v \<le> 1 \<longrightarrow>
            get_parameters_for_gemm_common ls rs fs ts vs n_features
              = Inr (single_leaf_layers n_features (Weight (transpose [v, v])))
          \<and> gemm_predict [map (\<lambda>i. if int i = 0 then 1 else 0) [0..<nat n_features]] [0]
                [[1], [-1]] [1, 0] (transpose [v, v]) y = v)
       \<and> (1 < length v \<and> sum_list v \<noteq> 0 \<longrightarrow>
            get_parameters_for_gemm_common ls rs fs ts vs n_features
              = Inr (single_leaf_layers n_features
                       (Weight (transpose [normalized v, normalized v])))
          \<and> gemm_predict [map (\<lambda>i. if int i = 0 then 1 else 0) [0..<nat n_features]] [0]
                [[1], [-1]] [1, 0] (transpose [normalized v, normalized v]) y = normalized v)
       \<and> (1 < length v \<and> sum_list v = 0 \<longrightarrow>
            get_parameters_for_gemm_common ls rs fs ts vs n_features
              = Inr (single_leaf_layers n_features NonFinite))"
proof -
  obtain r where r: "tree_trav_common_body [1, -1, -1] [2, -1, -1] [0, 0, 0] [0, 0, 0] [[0], v, v] = Inr r"
    and arrays: "tr_lefts r = [1, 1, 2]" "tr_rights r = [2, 1, 2]" "tr_features r = [0, 0, 0]"
      "tr_thresholds r = [0, 0, 0]" "tr_values r = [[0], v, v]"
    using single_leaf_trav_body by blast
  have run: "get_parameters_for_tree_trav_common ls rs fs ts vs = Inr r"
    using assms r by (simp add: get_parameters_for_tree_trav_common_def)
  have walk: "x \<noteq> [] \<longrightarrow> tree_trav_predict r x = Some v"
    using arrays by (simp add: single_leaf_trav_eval)
  have layers: "get_parameters_for_gemm_common ls rs fs ts vs n_features
           = Inr (single_leaf_layers n_features
                    (case expected_column v of None \<Rightarrow> NonFinite
                     | Some c \<Rightarrow> Weight (transpose [c, c])))"
    using assms by (simp add: get_parameters_for_gemm_common_def single_leaf_gemm_layers)
  have one: "length v \<le> 1 \<longrightarrow>
            get_parameters_for_gemm_common ls rs fs ts vs n_features
              = Inr (single_leaf_layers n_features (Weight (transpose [v, v])))"
    using layers by (simp add: expected_column_def)
  have many: "1 < length v \<and> sum_list v \<noteq> 0 \<longrightarrow>
            get_parameters_for_gemm_common ls rs fs ts vs n_features
              = Inr (single_leaf_layers n_features
                       (Weight (transpose [normalized v, normalized v])))"
    using layers by (simp add: expected_column_def)
  have zero: "1 < length v \<and> sum_list v = 0 \<longrightarrow>
            get_parameters_for_gemm_common ls rs fs ts vs n_features
              = Inr (single_leaf_layers n_features NonFinite)"
    using layers by (simp add: expected_column_def)
  from run arrays walk one many zero show ?thesis
    by (simp add: single_leaf_gemm_eval)
qed

theorem single_leaf_replacement_witness:
  "(\<exists>r. get_parameters_for_tree_trav_common [-1] [-1] [-2] [-2] [[3, 1]] = Inr r
        \<and> tr_lefts r = [1, 1, 2] \<and> tr_rights r = [2, 1, 2]
        \<and> tr_values r = [[0], [3, 1], [3, 1]]
        \<and> tree_trav_predict r [7] = Some [3, 1])
   \<and> get_parameters_for_gemm_common [-1] [-1] [-2] [-2] [[3, 1]] 2
       = Inr ([Weight [[1, 0]], Weight [[1], [-1]], Weight [[3 / 4, 3 / 4], [1 / 4, 1 / 4]]],
              [Some [0], Some [1, 0], None])
   \<and> gemm_predict [[1, 0]] [0] [[1], [-1]] [1, 0] [[3 / 4, 3 / 4], [1 / 4, 1 / 4]] [7, 9]
       = [3 / 4, 1 / 4]
   \<and> get_parameters_for_gemm_common [-1] [-1] [-2] [-2] [[5]] 2
       = Inr ([Weight [[1, 0]], Weight [[1], [-1]], Weight [[5, 5]]],
              [Some [0], Some [1, 0], None])
   \<and> gemm_predict [[1, 0]] [0] [[1], [-1]] [1, 0] [[5, 5]] [7, 9] = [5]"
proof -
  have a: "(\<exists>r. get_parameters_for_tree_trav_common [-1] [-1] [-2] [-2] [[3, 1]] = Inr r
        \<and> tr_lefts r = [1, 1, 2] \<and> tr_rights r = [2, 1, 2]
        \<and> tr_values r = [[0], [3, 1], [3, 1]]
        \<and> tree_trav_predict r [7] = Some [3, 1])
     \<and> get_parameters_for_gemm_common [-1] [-1] [-2] [-2] [[3, 1]] 2
       = Inr ([Weight [[1, 0]], Weight [[1], [-1]], Weight [[3 / 4, 3 / 4], [1 / 4, 1 / 4]]],
              [Some [0], Some [1, 0], None])
     \<and> gemm_predict [[1, 0]] [0] [[1], [-1]] [1, 0] [[3 / 4, 3 / 4], [1 / 4, 1 / 4]] [7, 9]
       = [3 / 4, 1 / 4]"
    using single_leaf_replacement
      [of "[-1]" "[[3, 1]]" "[3, 1]" "[]" "[-1]" "[-2]" "[-2]" "[7]" 2 "[7, 9]"]
    by (simp add: single_leaf_layers_def normalized_def upt_rec) blast
  have b: "get_parameters_for_gemm_common [-1] [-1] [-2] [-2] [[5]] 2
       = Inr ([Weight [[1, 0]], Weight [[1], [-1]], Weight [[5, 5]]],
              [Some [0], Some [1, 0], None])
     \<and> gemm_predict [[1, 0]] [0] [[1], [-1]] [1, 0] [[5, 5]] [7, 9] = [5]"
    using single_leaf_replacement
      [of "[-1]" "[[5]]" "[5]" "[]" "[-1]" "[-2]" "[-2]" "[7]" 2 "[7, 9]"]
    by (simp add: single_leaf_layers_def upt_rec)
  from a b show ?thesis by blast
qed

theorem single_leaf_gemm_counterexample:
  "get_parameters_for_gemm_common [-1] [-1] [-2] [-2] [[3, 1]] 2
     = Inr ([Weight [[1, 0]], Weight [[1], [-1]], Weight [[3 / 4, 3 / 4], [1 / 4, 1 / 4]]],
            [Some [0], Some [1, 0], None])
   \<and> gemm_predict [[1, 0]] [0] [[1], [-1]] [1, 0] [[3 / 4, 3 / 4], [1 / 4, 1 / 4]] [7, 9]
       \<noteq> [3, 1]"
  by (simp add: get_parameters_for_gemm_common_def gemm_common_body_def split_layer_def
      gemm_loop.simps gemm_step_def py_set_def py_get_def py_index_def py_slice_to_def
      class_layer_def class_column_def shape_last_def gemm_predict_def affine_def dot_def
      Let_def upt_rec)

section \<open>Well-formed trees and the depth-first enumeration\<close>

text \<open>
  The arrays of a tree are related to its shape: a leaf or a split, each with its node
  id. \<open>encodes\<close> reads the shape off the child arrays (a leaf has \<open>-1\<close> twice, a split
  names the roots of its two subtrees); a well-formed tree is encoded by arrays of equal
  length, has root 0, and its shape has every index of the arrays exactly once.
\<close>

datatype tree_shape = Leaf nat | Split nat tree_shape tree_shape

fun root_id :: "tree_shape \<Rightarrow> nat" where
  "root_id (Leaf i) = i"
| "root_id (Split i l r) = i"

fun node_ids :: "tree_shape \<Rightarrow> nat list" where
  "node_ids (Leaf i) = [i]"
| "node_ids (Split i l r) = i # node_ids l @ node_ids r"

fun encodes :: "int list \<Rightarrow> int list \<Rightarrow> tree_shape \<Rightarrow> bool" where
  "encodes ls rs (Leaf i) = (i < length ls \<and> ls ! i = -1 \<and> rs ! i = -1)"
| "encodes ls rs (Split i l r) =
     (i < length ls \<and> ls ! i = int (root_id l) \<and> rs ! i = int (root_id r)
      \<and> encodes ls rs l \<and> encodes ls rs r)"

definition wf_tree :: "int list \<Rightarrow> int list \<Rightarrow> tree_shape \<Rightarrow> bool" where
  "wf_tree ls rs t =
     (length rs = length ls \<and> encodes ls rs t \<and> root_id t = 0
      \<and> distinct (node_ids t) \<and> length (node_ids t) = length ls)"

text \<open>The root-to-leaf paths of a shape, leftmost leaf first: the splits passed, each with
  the direction taken (\<open>True\<close> for the left child), and the leaf reached.\<close>

fun leaf_paths :: "tree_shape \<Rightarrow> ((nat \<times> bool) list \<times> nat) list" where
  "leaf_paths (Leaf i) = [([], i)]"
| "leaf_paths (Split i l r) =
     map (\<lambda>(p, leaf). ((i, True) # p, leaf)) (leaf_paths l)
     @ map (\<lambda>(p, leaf). ((i, False) # p, leaf)) (leaf_paths r)"

text \<open>The column of a split in the path layer as the source computes it: the number of
  nodes before it whose left entry is not \<open>-1\<close>.\<close>

definition split_column :: "int list \<Rightarrow> nat \<Rightarrow> nat" where
  "split_column ls s = length (filter (\<lambda>l. l \<noteq> -1) (take s ls))"

definition turn_update :: "int list \<Rightarrow> int list \<Rightarrow> nat \<times> bool \<Rightarrow> int list" where
  "turn_update ls vec turn = vec[split_column ls (fst turn) := (if snd turn then 1 else -1)]"

definition ipath :: "(nat \<times> bool) list \<Rightarrow> int list" where
  "ipath tp = map (\<lambda>turn. int (fst turn)) tp"

definition turn_pairs :: "(nat \<times> bool) list \<Rightarrow> nat \<Rightarrow> (int \<times> int) list" where
  "turn_pairs tp e = zip (ipath tp) (tl (ipath tp @ [int e]))"

fun linked :: "int list \<Rightarrow> int list \<Rightarrow> (nat \<times> bool) list \<Rightarrow> nat \<Rightarrow> bool" where
  "linked ls rs [] e = True"
| "linked ls rs (turn # tp) e =
     (fst turn < length ls \<and> ls ! fst turn \<noteq> -1
      \<and> (if snd turn then ls ! fst turn else rs ! fst turn) = hd (ipath tp @ [int e])
      \<and> linked ls rs tp e)"

lemma py_get_nat [simp]: "i < length xs \<Longrightarrow> py_get xs (int i) = Inr (xs ! i)"
  by (simp add: py_get_def py_index_def)

lemma py_set_nat [simp]: "i < length xs \<Longrightarrow> py_set xs (int i) v = Inr (xs[i := v])"
  by (simp add: py_set_def py_index_def)

lemma py_slice_to_nat [simp]: "py_slice_to xs (int i) = take i xs"
  by (simp add: py_slice_to_def)

lemma count_list_compl: "count_list xs a + length (filter (\<lambda>l. l \<noteq> a) xs) = length xs"
  by (induction xs) auto

lemma count_sentinel:
  assumes "s \<le> length ls"
  shows "int s - int (count_list (take s ls) (-1)) = int (split_column ls s)"
  using count_list_compl [of "take s ls" "-1"] assms by (simp add: split_column_def)

lemma split_column_less:
  assumes "s < length ls" and "ls ! s \<noteq> -1"
  shows "split_column ls s < length (filter (\<lambda>l. l \<noteq> -1) ls)"
proof -
  have "ls = take s ls @ ls ! s # drop (Suc s) ls"
    using assms(1) by (simp add: id_take_nth_drop)
  then have "filter (\<lambda>l. l \<noteq> -1) ls
               = filter (\<lambda>l. l \<noteq> -1) (take s ls) @ ls ! s # filter (\<lambda>l. l \<noteq> -1) (drop (Suc s) ls)"
    using assms(2) by (metis (mono_tags, lifting) filter.simps(2) filter_append)
  then have "length (filter (\<lambda>l. l \<noteq> -1) ls)
               = split_column ls s + Suc (length (filter (\<lambda>l. l \<noteq> -1) (drop (Suc s) ls)))"
    by (simp add: split_column_def)
  then show ?thesis by simp
qed

lemma turn_pairs_Cons:
  "turn_pairs (turn # tp) e = (int (fst turn), hd (ipath tp @ [int e])) # turn_pairs tp e"
  by (cases tp) (simp_all add: turn_pairs_def ipath_def)

lemma path_loop_turns:
  assumes "linked ls rs tp e" and "length rs = length ls"
    and "\<forall>s < length ls. ls ! s \<noteq> -1 \<longrightarrow> rs ! s \<notin> set ls"
    and "length vec = length (filter (\<lambda>l. l \<noteq> -1) ls)"
  shows "path_loop ls rs (turn_pairs tp e) (vec, k)
           = Inr (foldl (turn_update ls) vec tp, k + int (length (filter snd tp)))"
  using assms(1,4)
proof (induction tp arbitrary: vec k)
  case Nil
  show ?case by (simp add: turn_pairs_def ipath_def)
next
  case (Cons turn tp)
  let ?s = "fst turn"
  let ?c = "hd (ipath tp @ [int e])"
  from Cons.prems have s: "?s < length ls" "ls ! ?s \<noteq> -1"
    and child: "(if snd turn then ls ! ?s else rs ! ?s) = ?c"
    and rest: "linked ls rs tp e"
    by simp_all
  have col: "split_column ls ?s < length vec"
    using s Cons.prems(2) by (simp add: split_column_less)
  have idx: "int ?s - int (count_list (take ?s ls) (-1)) = int (split_column ls ?s)"
    using s by (simp add: count_sentinel)
  show ?case
  proof (cases "snd turn")
    case True
    with child have "?c = ls ! ?s" by simp
    with s have "?c \<in> set ls" by simp
    with True col idx Cons.IH [OF rest, of "vec[split_column ls ?s := 1]" "k + 1"] Cons.prems(2)
    show ?thesis
      by (simp add: turn_pairs_Cons turn_update_def)
  next
    case False
    with child have c: "?c = rs ! ?s" by simp
    from s assms(3) have "rs ! ?s \<notin> set ls" by blast
    moreover from s assms(2) have "rs ! ?s \<in> set rs" by simp
    ultimately have "?c \<notin> set ls" and "?c \<in> set rs" using c by simp_all
    with False col idx Cons.IH [OF rest, of "vec[split_column ls ?s := -1]" k] Cons.prems(2)
    show ?thesis
      by (simp add: turn_pairs_Cons turn_update_def)
  qed
qed


abbreviation gstate ::
  "int list \<Rightarrow> bool list \<Rightarrow> int list list \<Rightarrow> int list \<Rightarrow> real list option list \<Rightarrow> gemm_state" where
  "gstate path visited hw hb cp \<equiv>
     \<lparr>gs_path = path, gs_visited = visited, gs_hidden_weights = hw, gs_hidden_biases = hb,
      gs_class_proba = cp\<rparr>"

definition mark :: "nat list \<Rightarrow> bool list \<Rightarrow> bool list" where
  "mark ids visited = map (\<lambda>j. visited ! j \<or> j \<in> set ids) [0..<length visited]"

definition n_internal :: "int list \<Rightarrow> nat" where
  "n_internal ls = length (filter (\<lambda>l. l \<noteq> -1) ls)"

lemma gemm_step_leaf:
  assumes "length rs = length ls" and "length fs = length ls" and "length ts = length ls"
    and "length vs = length ls" and "length visited = length ls"
    and "i < length ls" and "ls ! i = -1" and "rs ! i = -1"
    and "linked ls rs tp i"
    and "\<forall>s < length ls. ls ! s \<noteq> -1 \<longrightarrow> rs ! s \<notin> set ls"
  shows "gemm_step ls rs (zip ls (zip rs (zip fs (zip ts vs)))) vs (n_internal ls)
           (gstate (ipath tp @ [int i]) visited hw hb cp)
         = Inr (gstate (ipath tp) (visited[i := True])
                  (hw @ [foldl (turn_update ls) (replicate (n_internal ls) 0) tp])
                  (hb @ [int (length (filter snd tp))])
                  (cp @ [class_column vs (vs ! i)]))"
proof -
  have pairs: "zip (ipath tp) (tl (ipath tp @ [int i])) = turn_pairs tp i"
    by (simp add: turn_pairs_def)
  have loop: "path_loop ls rs (turn_pairs tp i) (replicate (n_internal ls) 0, 0)
                = Inr (foldl (turn_update ls) (replicate (n_internal ls) 0) tp,
                       int (length (filter snd tp)))"
    using path_loop_turns [OF assms(9) assms(1) assms(10), of "replicate (n_internal ls) 0" 0]
    by (simp add: n_internal_def)
  show ?thesis
    using assms(1-8) by (simp add: gemm_step_def Let_def pairs loop)
qed

lemma gemm_step_split:
  assumes "length rs = length ls" and "length fs = length ls" and "length ts = length ls"
    and "length vs = length ls" and "length visited = length ls"
    and "i < length ls" and "ls ! i = int l" and "rs ! i = int r"
    and "l < length ls" and "r < length ls"
  shows "gemm_step ls rs (zip ls (zip rs (zip fs (zip ts vs)))) vs n_splits
           (gstate (p @ [int i]) visited hw hb cp)
         = Inr (if \<not> visited[i := True] ! l
                then gstate (p @ [int i, int l]) (visited[i := True]) hw hb cp
                else if \<not> visited[i := True] ! r
                then gstate (p @ [int i, int r]) (visited[i := True]) hw hb cp
                else gstate p (visited[i := True]) hw hb cp)"
  using assms by (simp add: gemm_step_def Let_def)

lemma mark_length [simp]: "length (mark ids visited) = length visited"
  by (simp add: mark_def)

lemma mark_nth [simp]:
  "j < length visited \<Longrightarrow> mark ids visited ! j = (visited ! j \<or> j \<in> set ids)"
  by (simp add: mark_def)

lemma encodes_root: "encodes ls rs t \<Longrightarrow> root_id t < length ls"
  by (cases t) simp_all

lemma encodes_ids_bound: "encodes ls rs t \<Longrightarrow> j \<in> set (node_ids t) \<Longrightarrow> j < length ls"
  by (induction t) auto

lemma root_in_ids: "root_id t \<in> set (node_ids t)"
  by (cases t) simp_all

lemma linked_snoc:
  assumes "linked ls rs tp i" and "i < length ls" and "ls ! i \<noteq> -1"
    and "(if b then ls ! i else rs ! i) = int c"
  shows "linked ls rs (tp @ [(i, b)]) c"
  using assms(1)
proof (induction tp)
  case Nil
  then show ?case using assms(2-4) by (cases b) (simp_all add: ipath_def)
next
  case (Cons turn tp)
  then show ?case by (cases tp) (simp_all add: ipath_def)
qed


lemma gemm_loop_step:
  assumes "gs_path st \<noteq> []" and "gemm_step ls rs nodes vs n st = Inr st'"
  shows "gemm_loop ls rs nodes vs n st = gemm_loop ls rs nodes vs n st'"
  using assms by (simp add: gemm_loop.simps [of ls rs nodes vs n st])

lemma ipath_snoc: "ipath (tp @ [(i, b)]) = ipath tp @ [int i]"
  by (simp add: ipath_def)

lemma dfs_subtree:
  assumes "length rs = length ls" and "length fs = length ls" and "length ts = length ls"
    and "length vs = length ls"
    and "\<forall>s < length ls. ls ! s \<noteq> -1 \<longrightarrow> rs ! s \<notin> set ls"
    and "encodes ls rs t" and "distinct (node_ids t)"
    and "length visited = length ls" and "\<forall>j \<in> set (node_ids t). \<not> visited ! j"
    and "linked ls rs tp (root_id t)"
  shows "gemm_loop ls rs (zip ls (zip rs (zip fs (zip ts vs)))) vs (n_internal ls)
           (gstate (ipath tp @ [int (root_id t)]) visited hw hb cp)
       = gemm_loop ls rs (zip ls (zip rs (zip fs (zip ts vs)))) vs (n_internal ls)
           (gstate (ipath tp) (mark (node_ids t) visited)
              (hw @ map (\<lambda>(p, leaf). foldl (turn_update ls) (replicate (n_internal ls) 0) (tp @ p))
                      (leaf_paths t))
              (hb @ map (\<lambda>(p, leaf). int (length (filter snd (tp @ p)))) (leaf_paths t))
              (cp @ map (\<lambda>(p, leaf). class_column vs (vs ! leaf)) (leaf_paths t)))"
  using assms(6-10)
proof (induction t arbitrary: tp visited hw hb cp)
  case (Leaf i)
  let ?nodes = "zip ls (zip rs (zip fs (zip ts vs)))"
  from Leaf.prems have i: "i < length ls" "ls ! i = -1" "rs ! i = -1" by simp_all
  have m: "visited[i := True] = mark [i] visited"
    using Leaf.prems(3) i(1) by (auto intro!: nth_equalityI simp add: nth_list_update)
  have "gemm_step ls rs ?nodes vs (n_internal ls) (gstate (ipath tp @ [int i]) visited hw hb cp)
         = Inr (gstate (ipath tp) (visited[i := True])
                  (hw @ [foldl (turn_update ls) (replicate (n_internal ls) 0) tp])
                  (hb @ [int (length (filter snd tp))])
                  (cp @ [class_column vs (vs ! i)]))"
    using Leaf.prems(5) by (intro gemm_step_leaf assms(1-5) Leaf.prems(3) i) simp
  from gemm_loop_step [OF _ this] show ?case by (simp add: m)
next
  case (Split i l r)
  let ?nodes = "zip ls (zip rs (zip fs (zip ts vs)))"
  let ?n = "n_internal ls"
  let ?L = "root_id l" and ?R = "root_id r"
  from Split.prems(1) have i: "i < length ls" "ls ! i = int ?L" "rs ! i = int ?R"
    and el: "encodes ls rs l" and er: "encodes ls rs r"
    by simp_all
  from el er have lr: "?L < length ls" "?R < length ls" by (simp_all add: encodes_root)
  from Split.prems(2) have dl: "distinct (node_ids l)" and dr: "distinct (node_ids r)"
    and il: "i \<notin> set (node_ids l)" and ir: "i \<notin> set (node_ids r)"
    and disj: "set (node_ids l) \<inter> set (node_ids r) = {}"
    by simp_all
  have Lin: "?L \<in> set (node_ids l)" and Rin: "?R \<in> set (node_ids r)"
    by (rule root_in_ids)+
  from Lin Rin il ir disj have ne: "?L \<noteq> i" "?R \<noteq> i" "?R \<notin> set (node_ids l)"
    by auto
  have internal: "ls ! i \<noteq> -1" using i(2) by simp
  from Split.prems(4) Lin Rin have nv: "\<not> visited ! ?L" "\<not> visited ! ?R" by simp_all
  let ?V1 = "visited[i := True]"
  let ?V2 = "mark (node_ids l) ?V1"
  let ?V3 = "?V2[i := True]"
  let ?V4 = "mark (node_ids r) ?V3"
  let ?tl = "tp @ [(i, True)]" and ?tr = "tp @ [(i, False)]"
  let ?hw1 = "hw @ map (\<lambda>(p, leaf). foldl (turn_update ls) (replicate ?n 0) (?tl @ p)) (leaf_paths l)"
  let ?hb1 = "hb @ map (\<lambda>(p, leaf). int (length (filter snd (?tl @ p)))) (leaf_paths l)"
  let ?cp1 = "cp @ map (\<lambda>(p, leaf). class_column vs (vs ! leaf)) (leaf_paths l)"
  let ?hw2 = "?hw1 @ map (\<lambda>(p, leaf). foldl (turn_update ls) (replicate ?n 0) (?tr @ p)) (leaf_paths r)"
  let ?hb2 = "?hb1 @ map (\<lambda>(p, leaf). int (length (filter snd (?tr @ p)))) (leaf_paths r)"
  let ?cp2 = "?cp1 @ map (\<lambda>(p, leaf). class_column vs (vs ! leaf)) (leaf_paths r)"
  have unl: "\<forall>j \<in> set (node_ids l). \<not> ?V1 ! j"
  proof
    fix j assume j: "j \<in> set (node_ids l)"
    with il have "i \<noteq> j" by blast
    with j Split.prems(4) show "\<not> ?V1 ! j" by simp
  qed
  have unr: "\<forall>j \<in> set (node_ids r). \<not> ?V3 ! j"
  proof
    fix j assume j: "j \<in> set (node_ids r)"
    with ir have nij: "i \<noteq> j" by blast
    from j er have "j < length ls" by (rule encodes_ids_bound [rotated])
    moreover from j disj have "j \<notin> set (node_ids l)" by blast
    ultimately show "\<not> ?V3 ! j"
      using nij j Split.prems(3,4) by simp
  qed
  have s1: "gemm_loop ls rs ?nodes vs ?n (gstate (ipath tp @ [int i]) visited hw hb cp)
          = gemm_loop ls rs ?nodes vs ?n (gstate (ipath tp @ [int i, int ?L]) ?V1 hw hb cp)"
  proof (rule gemm_loop_step)
    show "gemm_step ls rs ?nodes vs ?n (gstate (ipath tp @ [int i]) visited hw hb cp)
            = Inr (gstate (ipath tp @ [int i, int ?L]) ?V1 hw hb cp)"
      using gemm_step_split [OF assms(1-4) Split.prems(3) i lr, of ?n "ipath tp" hw hb cp]
        Split.prems(3) ne lr nv
      by (simp add: ipath_snoc nth_list_update)
  qed simp
  have s2': "gemm_loop ls rs ?nodes vs ?n (gstate (ipath ?tl @ [int ?L]) ?V1 hw hb cp)
          = gemm_loop ls rs ?nodes vs ?n (gstate (ipath ?tl) ?V2 ?hw1 ?hb1 ?cp1)"
  proof (rule Split.IH(1) [OF el dl _ unl])
    show "length ?V1 = length ls" using Split.prems(3) by simp
    from Split.prems(5) have "linked ls rs tp i" by simp
    from linked_snoc [OF this i(1) internal, of True ?L] i(2)
    show "linked ls rs ?tl ?L" by simp
  qed
  have s3: "gemm_loop ls rs ?nodes vs ?n (gstate (ipath tp @ [int i]) ?V2 ?hw1 ?hb1 ?cp1)
          = gemm_loop ls rs ?nodes vs ?n (gstate (ipath tp @ [int i, int ?R]) ?V3 ?hw1 ?hb1 ?cp1)"
  proof (rule gemm_loop_step)
    have len: "length ?V2 = length ls" using Split.prems(3) by simp
    show "gemm_step ls rs ?nodes vs ?n (gstate (ipath tp @ [int i]) ?V2 ?hw1 ?hb1 ?cp1)
            = Inr (gstate (ipath tp @ [int i, int ?R]) ?V3 ?hw1 ?hb1 ?cp1)"
      using gemm_step_split [OF assms(1-4) len i lr, of ?n "ipath tp" ?hw1 ?hb1 ?cp1]
        Split.prems(3) ne lr nv Lin Rin
      by (simp add: ipath_snoc nth_list_update)
  qed simp
  have s4': "gemm_loop ls rs ?nodes vs ?n (gstate (ipath ?tr @ [int ?R]) ?V3 ?hw1 ?hb1 ?cp1)
          = gemm_loop ls rs ?nodes vs ?n (gstate (ipath ?tr) ?V4 ?hw2 ?hb2 ?cp2)"
  proof (rule Split.IH(2) [OF er dr _ unr])
    show "length ?V3 = length ls" using Split.prems(3) by simp
    from Split.prems(5) have "linked ls rs tp i" by simp
    from linked_snoc [OF this i(1) internal, of False ?R] i(3)
    show "linked ls rs ?tr ?R" by simp
  qed
  have s5: "gemm_loop ls rs ?nodes vs ?n (gstate (ipath tp @ [int i]) ?V4 ?hw2 ?hb2 ?cp2)
          = gemm_loop ls rs ?nodes vs ?n (gstate (ipath tp) (?V4[i := True]) ?hw2 ?hb2 ?cp2)"
  proof (rule gemm_loop_step)
    have len: "length ?V4 = length ls" using Split.prems(3) by simp
    show "gemm_step ls rs ?nodes vs ?n (gstate (ipath tp @ [int i]) ?V4 ?hw2 ?hb2 ?cp2)
            = Inr (gstate (ipath tp) (?V4[i := True]) ?hw2 ?hb2 ?cp2)"
      using gemm_step_split [OF assms(1-4) len i lr, of ?n "ipath tp" ?hw2 ?hb2 ?cp2]
        Split.prems(3) ne lr nv Lin Rin
      by (simp add: nth_list_update)
  qed simp
  have fin: "?V4[i := True] = mark (node_ids (Split i l r)) visited"
    using Split.prems(3) i(1)
    by (auto intro!: nth_equalityI simp add: nth_list_update)
  have s2: "gemm_loop ls rs ?nodes vs ?n (gstate (ipath tp @ [int i, int ?L]) ?V1 hw hb cp)
          = gemm_loop ls rs ?nodes vs ?n (gstate (ipath tp @ [int i]) ?V2 ?hw1 ?hb1 ?cp1)"
    using s2' unfolding ipath_snoc by simp
  have s4: "gemm_loop ls rs ?nodes vs ?n (gstate (ipath tp @ [int i, int ?R]) ?V3 ?hw1 ?hb1 ?cp1)
          = gemm_loop ls rs ?nodes vs ?n (gstate (ipath tp @ [int i]) ?V4 ?hw2 ?hb2 ?cp2)"
    using s4' unfolding ipath_snoc by simp
  have out: "?hw2 = hw @ map (\<lambda>(p, leaf). foldl (turn_update ls) (replicate ?n 0) (tp @ p))
                            (leaf_paths (Split i l r))"
    "?hb2 = hb @ map (\<lambda>(p, leaf). int (length (filter snd (tp @ p)))) (leaf_paths (Split i l r))"
    "?cp2 = cp @ map (\<lambda>(p, leaf). class_column vs (vs ! leaf)) (leaf_paths (Split i l r))"
    by (simp_all add: case_prod_unfold comp_def)
  have "gemm_loop ls rs ?nodes vs ?n (gstate (ipath tp @ [int (root_id (Split i l r))]) visited hw hb cp)
          = gemm_loop ls rs ?nodes vs ?n (gstate (ipath tp) (?V4[i := True]) ?hw2 ?hb2 ?cp2)"
    using s1 s2 s3 s4 s5 by (simp only: root_id.simps)
  then show ?case unfolding fin out .
qed

fun left_roots :: "tree_shape \<Rightarrow> nat list" where
  "left_roots (Leaf i) = []"
| "left_roots (Split i l r) = root_id l # left_roots l @ left_roots r"

fun right_roots :: "tree_shape \<Rightarrow> nat list" where
  "right_roots (Leaf i) = []"
| "right_roots (Split i l r) = root_id r # right_roots l @ right_roots r"

lemma child_roots_subset:
  "distinct (node_ids t) \<Longrightarrow>
     set (left_roots t) \<union> set (right_roots t) \<subseteq> set (node_ids t) - {root_id t}"
proof (induction t)
  case (Leaf i)
  show ?case by simp
next
  case (Split i l r)
  from Split.prems have "distinct (node_ids l)" "distinct (node_ids r)" by simp_all
  with Split.IH have "set (left_roots l) \<union> set (right_roots l) \<subseteq> set (node_ids l)"
    and "set (left_roots r) \<union> set (right_roots r) \<subseteq> set (node_ids r)"
    by blast+
  moreover have "root_id l \<in> set (node_ids l)" "root_id r \<in> set (node_ids r)"
    by (rule root_in_ids)+
  ultimately show ?case using Split.prems by auto
qed

lemma child_roots_disjoint:
  "distinct (node_ids t) \<Longrightarrow> set (left_roots t) \<inter> set (right_roots t) = {}"
proof (induction t)
  case (Leaf i)
  show ?case by simp
next
  case (Split i l r)
  from Split.prems have dl: "distinct (node_ids l)" and dr: "distinct (node_ids r)"
    and disj: "set (node_ids l) \<inter> set (node_ids r) = {}"
    by simp_all
  note sl = child_roots_subset [OF dl] and sr = child_roots_subset [OF dr]
  have rl: "root_id l \<in> set (node_ids l)" and rr: "root_id r \<in> set (node_ids r)"
    by (rule root_in_ids)+
  from Split.IH dl dr have "set (left_roots l) \<inter> set (right_roots l) = {}"
    and "set (left_roots r) \<inter> set (right_roots r) = {}"
    by blast+
  with sl sr rl rr disj show ?case by auto
qed

lemma encodes_left_entry:
  "encodes ls rs t \<Longrightarrow> j \<in> set (node_ids t) \<Longrightarrow>
     ls ! j = -1 \<or> (\<exists>c \<in> set (left_roots t). ls ! j = int c)"
  by (induction t) auto

lemma encodes_right_entry:
  "encodes ls rs t \<Longrightarrow> j \<in> set (node_ids t) \<Longrightarrow> ls ! j \<noteq> -1 \<Longrightarrow>
     (\<exists>c \<in> set (right_roots t). rs ! j = int c)"
  by (induction t) auto

lemma wf_tree_ids:
  assumes "wf_tree ls rs t"
  shows "set (node_ids t) = {0..<length ls}"
proof -
  from assms have d: "distinct (node_ids t)" and n: "length (node_ids t) = length ls"
    and e: "encodes ls rs t"
    by (simp_all add: wf_tree_def)
  from e have sub: "set (node_ids t) \<subseteq> {0..<length ls}"
    using encodes_ids_bound by fastforce
  from d n have "card (set (node_ids t)) = card {0..<length ls}"
    by (simp add: distinct_card)
  with sub show ?thesis by (simp add: card_subset_eq)
qed

lemma wf_tree_right_not_left:
  assumes "wf_tree ls rs t"
  shows "\<forall>s < length ls. ls ! s \<noteq> -1 \<longrightarrow> rs ! s \<notin> set ls"
proof (intro allI impI)
  fix s assume s: "s < length ls" and internal: "ls ! s \<noteq> -1"
  from assms have d: "distinct (node_ids t)" and e: "encodes ls rs t"
    by (simp_all add: wf_tree_def)
  note ids = wf_tree_ids [OF assms]
  from s ids have "s \<in> set (node_ids t)" by simp
  from encodes_right_entry [OF e this internal]
  obtain c where c: "c \<in> set (right_roots t)" "rs ! s = int c" by blast
  show "rs ! s \<notin> set ls"
  proof
    assume "rs ! s \<in> set ls"
    then obtain j where j: "j < length ls" "ls ! j = int c"
      using c(2) by (auto simp add: in_set_conv_nth)
    from j(1) ids have "j \<in> set (node_ids t)" by simp
    from encodes_left_entry [OF e this] j(2)
    have "c \<in> set (left_roots t)" by auto
    with c(1) child_roots_disjoint [OF d] show False by blast
  qed
qed

lemma split_layer_length:
  assumes "length fs = length ls" and "length ts = length ls"
  shows "length (fst (split_layer ls fs ts n_features)) = n_internal ls"
proof -
  have "map fst (filter (\<lambda>(left, feature, thresh). left \<noteq> -1) (zip ls (zip fs ts)))
          = filter (\<lambda>l. l \<noteq> -1) (map fst (zip ls (zip fs ts)))"
    by (simp add: filter_map comp_def case_prod_unfold)
  also have "map fst (zip ls (zip fs ts)) = ls" using assms by simp
  finally have "length (filter (\<lambda>(left, feature, thresh). left \<noteq> -1) (zip ls (zip fs ts)))
                  = n_internal ls"
    unfolding n_internal_def by (metis length_map)
  then show ?thesis by (simp add: split_layer_def Let_def)
qed

definition path_rows :: "int list \<Rightarrow> tree_shape \<Rightarrow> int list list" where
  "path_rows ls t =
     map (\<lambda>(p, leaf). foldl (turn_update ls) (replicate (n_internal ls) 0) p) (leaf_paths t)"

definition path_biases :: "tree_shape \<Rightarrow> int list" where
  "path_biases t = map (\<lambda>(p, leaf). int (length (filter snd p))) (leaf_paths t)"

definition class_columns :: "real list list \<Rightarrow> tree_shape \<Rightarrow> real list option list" where
  "class_columns vs t = map (\<lambda>(p, leaf). class_column vs (vs ! leaf)) (leaf_paths t)"

lemma gemm_common_body_wf:
  assumes "wf_tree ls rs t" and "length fs = length ls" and "length ts = length ls"
    and "length vs = length ls"
  shows "gemm_common_body ls rs fs ts vs n_features
           = Inr ([Weight (fst (split_layer ls fs ts n_features)),
                   Weight (map (map real_of_int) (path_rows ls t)),
                   class_layer (class_columns vs t)],
                  [Some (snd (split_layer ls fs ts n_features)),
                   Some (map real_of_int (path_biases t)), None])"
proof -
  let ?nodes = "zip ls (zip rs (zip fs (zip ts vs)))"
  from assms(1) have lr: "length rs = length ls" and e: "encodes ls rs t"
    and root: "root_id t = 0" and d: "distinct (node_ids t)"
    by (simp_all add: wf_tree_def)
  have un: "\<forall>j \<in> set (node_ids t). \<not> replicate (length ls) False ! j"
    using encodes_ids_bound [OF e] by simp
  have "gemm_loop ls rs ?nodes vs (n_internal ls)
          (gstate (ipath [] @ [int (root_id t)]) (replicate (length ls) False) [] [] [])
        = gemm_loop ls rs ?nodes vs (n_internal ls)
            (gstate (ipath []) (mark (node_ids t) (replicate (length ls) False))
               ([] @ map (\<lambda>(p, leaf). foldl (turn_update ls) (replicate (n_internal ls) 0) ([] @ p))
                       (leaf_paths t))
               ([] @ map (\<lambda>(p, leaf). int (length (filter snd ([] @ p)))) (leaf_paths t))
               ([] @ map (\<lambda>(p, leaf). class_column vs (vs ! leaf)) (leaf_paths t)))"
    by (rule dfs_subtree [OF lr assms(2-4) wf_tree_right_not_left [OF assms(1)] e d _ un]) simp_all
  then have loop: "gemm_loop ls rs ?nodes vs (n_internal ls)
          (gstate [0] (replicate (length ls) False) [] [] [])
        = Inr (gstate [] (mark (node_ids t) (replicate (length ls) False))
                 (path_rows ls t) (path_biases t) (class_columns vs t))"
    by (simp add: root ipath_def path_rows_def path_biases_def class_columns_def
        gemm_loop.simps [of _ _ _ _ _ "gstate [] _ _ _ _"])
  obtain w1 b1 where sl: "split_layer ls fs ts n_features = (w1, b1)"
    by (cases "split_layer ls fs ts n_features")
  with split_layer_length [OF assms(2,3), of n_features]
  have "length w1 = n_internal ls" by simp
  with sl loop show ?thesis
    by (simp add: gemm_common_body_def Let_def)
qed

section \<open>The path layer\<close>

text \<open>The nodes that split, in array order: row \<open>c\<close> of the split layer and column \<open>c\<close>
  of the path layer belong to node \<open>split_ids ls ! c\<close>. The expected row of a leaf has
  \<open>+1\<close> where its path leaves a split to the left, \<open>-1\<close> where it leaves it to the right
  and \<open>0\<close> at the splits that are not on the path.\<close>

definition split_ids :: "int list \<Rightarrow> nat list" where
  "split_ids ls = filter (\<lambda>i. ls ! i \<noteq> -1) [0..<length ls]"

definition expected_row :: "int list \<Rightarrow> (nat \<times> bool) list \<Rightarrow> int list" where
  "expected_row ls p =
     map (\<lambda>s. if (s, True) \<in> set p then 1 else if (s, False) \<in> set p then -1 else 0)
       (split_ids ls)"

lemma filter_take_upt:
  "s \<le> length xs \<Longrightarrow>
     length (filter P (take s xs)) = length (filter (\<lambda>i. P (xs ! i)) [0..<s])"
proof (induction s)
  case 0
  show ?case by simp
next
  case (Suc s)
  then show ?case by (simp add: take_Suc_conv_app_nth)
qed

lemma split_ids_length: "length (split_ids ls) = n_internal ls"
  using filter_take_upt [of "length ls" ls "\<lambda>l. l \<noteq> -1"]
  by (simp add: split_ids_def n_internal_def)

lemma split_ids_distinct: "distinct (split_ids ls)"
  by (simp add: split_ids_def)

lemma split_ids_member: "s \<in> set (split_ids ls) \<longleftrightarrow> s < length ls \<and> ls ! s \<noteq> -1"
  by (auto simp add: split_ids_def)

lemma split_column_nth:
  assumes "s < length ls" and "ls ! s \<noteq> -1"
  shows "split_column ls s < length (split_ids ls)"
    and "split_ids ls ! split_column ls s = s"
proof -
  let ?Q = "\<lambda>i. ls ! i \<noteq> -1"
  have "[0..<length ls] = [0..<s] @ s # [Suc s..<length ls]"
    using assms(1) by (metis le_add1 less_imp_add_positive upt_add_eq_append upt_conv_Cons add.commute less_or_eq_imp_le plus_nat.add_0)
  then have ids: "split_ids ls = filter ?Q [0..<s] @ s # filter ?Q [Suc s..<length ls]"
    using assms(2) by (simp add: split_ids_def)
  have col: "split_column ls s = length (filter ?Q [0..<s])"
    using assms(1) filter_take_upt [of s ls "\<lambda>l. l \<noteq> -1"] by (simp add: split_column_def)
  show "split_column ls s < length (split_ids ls)" unfolding ids col by simp
  show "split_ids ls ! split_column ls s = s" unfolding ids col by (simp add: nth_append)
qed

lemma split_column_inverse:
  assumes "c < length (split_ids ls)"
  shows "split_column ls (split_ids ls ! c) = c"
proof -
  let ?s = "split_ids ls ! c"
  from assms have "?s \<in> set (split_ids ls)" by simp
  then have s: "?s < length ls" "ls ! ?s \<noteq> -1" by (simp_all add: split_ids_member)
  from split_column_nth [OF s] assms show ?thesis
    using split_ids_distinct [of ls] by (simp add: nth_eq_iff_index_eq)
qed

lemma foldl_turn_update:
  assumes "distinct (map fst p)"
    and "\<forall>s \<in> set (map fst p). s < length ls \<and> ls ! s \<noteq> -1"
    and "length vec = n_internal ls"
  shows "foldl (turn_update ls) vec p
           = map (\<lambda>c. if (split_ids ls ! c, True) \<in> set p then 1
                      else if (split_ids ls ! c, False) \<in> set p then -1 else vec ! c)
               [0..<n_internal ls]"
  using assms
proof (induction p arbitrary: vec)
  case Nil
  then show ?case by (auto intro: nth_equalityI)
next
  case (Cons turn p)
  obtain s b where turn: "turn = (s, b)" by (cases turn)
  from Cons.prems turn have s: "s < length ls" "ls ! s \<noteq> -1"
    and fresh: "s \<notin> fst ` set p" and d: "distinct (map fst p)"
    and rest: "\<forall>s \<in> set (map fst p). s < length ls \<and> ls ! s \<noteq> -1"
    by simp_all
  let ?col = "split_column ls s"
  let ?w = "if b then 1 else (-1::int)"
  note col = split_column_nth [OF s]
  have len: "length (vec[?col := ?w]) = n_internal ls" using Cons.prems(3) by simp
  have step: "foldl (turn_update ls) vec (turn # p) = foldl (turn_update ls) (vec[?col := ?w]) p"
    by (simp add: turn turn_update_def)
  show ?case unfolding step Cons.IH [OF d rest len]
  proof (rule map_cong [OF refl])
    fix c assume "c \<in> set [0..<n_internal ls]"
    then have c: "c < length (split_ids ls)" by (simp add: split_ids_length)
    show "(if (split_ids ls ! c, True) \<in> set p then 1
           else if (split_ids ls ! c, False) \<in> set p then -1 else vec[?col := ?w] ! c)
        = (if (split_ids ls ! c, True) \<in> set (turn # p) then 1
           else if (split_ids ls ! c, False) \<in> set (turn # p) then -1 else vec ! c)"
    proof (cases "split_ids ls ! c = s")
      case True
      with c have "c = ?col" using split_column_inverse by metis
      moreover from True fresh have "(split_ids ls ! c, True) \<notin> set p"
        and "(split_ids ls ! c, False) \<notin> set p"
        by force+
      ultimately show ?thesis
        using True c Cons.prems(3) by (simp add: turn split_ids_length)
    next
      case False
      with col(2) have "c \<noteq> ?col" by blast
      with False show ?thesis by (simp add: turn)
    qed
  qed
qed

lemma foldl_turn_update_expected:
  assumes "distinct (map fst p)"
    and "\<forall>s \<in> set (map fst p). s < length ls \<and> ls ! s \<noteq> -1"
  shows "foldl (turn_update ls) (replicate (n_internal ls) 0) p = expected_row ls p"
proof -
  have "expected_row ls p
          = map (\<lambda>c. if (split_ids ls ! c, True) \<in> set p then 1
                     else if (split_ids ls ! c, False) \<in> set p then -1 else 0)
              [0..<length (split_ids ls)]"
    unfolding expected_row_def by (rule nth_equalityI) simp_all
  with foldl_turn_update [OF assms, of "replicate (n_internal ls) 0"] show ?thesis
    by (simp add: split_ids_length cong: map_cong)
qed

lemma leaf_paths_facts:
  assumes "encodes ls rs t" and "distinct (node_ids t)" and "(p, leaf) \<in> set (leaf_paths t)"
  shows "distinct (map fst p) \<and> fst ` set p \<subseteq> set (node_ids t)
       \<and> (\<forall>s \<in> fst ` set p. s < length ls \<and> ls ! s \<noteq> -1)
       \<and> leaf \<in> set (node_ids t) \<and> leaf \<notin> fst ` set p \<and> ls ! leaf = -1"
  using assms
proof (induction t arbitrary: p)
  case (Leaf i)
  then show ?case by simp
next
  case (Split i l r)
  from Split.prems(1) have i: "i < length ls" "ls ! i \<noteq> -1"
    and el: "encodes ls rs l" and er: "encodes ls rs r"
    by simp_all
  from Split.prems(2) have dl: "distinct (node_ids l)" and dr: "distinct (node_ids r)"
    and il: "i \<notin> set (node_ids l)" and ir: "i \<notin> set (node_ids r)"
    by simp_all
  from Split.prems(3) consider
    q where "p = (i, True) # q" "(q, leaf) \<in> set (leaf_paths l)"
    | q where "p = (i, False) # q" "(q, leaf) \<in> set (leaf_paths r)"
    by auto
  then show ?case
  proof cases
    case 1
    from Split.IH(1) [OF el dl 1(2)] il i 1(1) show ?thesis by auto
  next
    case 2
    from Split.IH(2) [OF er dr 2(2)] ir i 2(1) show ?thesis by auto
  qed
qed

lemma path_rows_expected:
  assumes "encodes ls rs t" and "distinct (node_ids t)"
  shows "path_rows ls t = map (\<lambda>(p, leaf). expected_row ls p) (leaf_paths t)"
  unfolding path_rows_def
proof (rule map_cong [OF refl])
  fix x assume x: "x \<in> set (leaf_paths t)"
  obtain p leaf where pl: "x = (p, leaf)" by (cases x)
  from leaf_paths_facts [OF assms x [unfolded pl]]
  have "foldl (turn_update ls) (replicate (n_internal ls) 0) p = expected_row ls p"
    by (intro foldl_turn_update_expected) auto
  then show "(case x of (p, leaf) \<Rightarrow> foldl (turn_update ls) (replicate (n_internal ls) 0) p)
           = (case x of (p, leaf) \<Rightarrow> expected_row ls p)"
    by (simp add: pl)
qed

lemma count_positive_entries:
  "count_list (map (\<lambda>s. if (s, True) \<in> A then 1 else if (s, False) \<in> A then -1 else (0::int)) xs) 1
     = length (filter (\<lambda>s. (s, True) \<in> A) xs)"
  by (induction xs) auto

lemma expected_row_positive_count:
  assumes "distinct (map fst p)" and "\<forall>s \<in> fst ` set p. s < length ls \<and> ls ! s \<noteq> -1"
  shows "count_list (expected_row ls p) 1 = length (filter snd p)"
proof -
  have "count_list (expected_row ls p) 1
          = length (filter (\<lambda>s. (s, True) \<in> set p) (split_ids ls))"
    unfolding expected_row_def by (rule count_positive_entries)
  also have "\<dots> = card ({s. (s, True) \<in> set p} \<inter> set (split_ids ls))"
    by (simp add: distinct_length_filter split_ids_distinct)
  also have "{s. (s, True) \<in> set p} \<inter> set (split_ids ls) = set (map fst (filter snd p))"
    using assms(2) by (force simp add: split_ids_member)
  also have "card (set (map fst (filter snd p))) = length (map fst (filter snd p))"
    using assms(1) by (intro distinct_card) (simp add: distinct_map_filter)
  finally show ?thesis by simp
qed

text \<open>What the functions work on after the single-leaf replacement.\<close>

definition effective_lefts :: "int list \<Rightarrow> int list" where
  "effective_lefts ls = (if length ls = 1 then [1, -1, -1] else ls)"

definition effective_shape :: "tree_shape \<Rightarrow> tree_shape" where
  "effective_shape t = (case t of Leaf i \<Rightarrow> Split 0 (Leaf 1) (Leaf 2) | Split i l r \<Rightarrow> t)"

definition one_hot :: "int \<Rightarrow> int \<Rightarrow> real list" where
  "one_hot n_features feature = map (\<lambda>i. if int i = feature then 1 else 0) [0..<nat n_features]"

lemma split_layer_split_ids:
  assumes "length fs = length ls" and "length ts = length ls"
  shows "split_layer ls fs ts n_features
           = (map (\<lambda>s. one_hot n_features (fs ! s)) (split_ids ls),
              map (\<lambda>s. ts ! s) (split_ids ls))"
proof -
  have z: "zip ls (zip fs ts) = map (\<lambda>i. (ls ! i, fs ! i, ts ! i)) [0..<length ls]"
    using assms by (auto intro!: nth_equalityI)
  have "filter (\<lambda>(left, feature, thresh). left \<noteq> -1) (zip ls (zip fs ts))
          = map (\<lambda>i. (ls ! i, fs ! i, ts ! i)) (split_ids ls)"
    unfolding z split_ids_def by (simp add: filter_map comp_def)
  then show ?thesis
    by (simp add: split_layer_def one_hot_def comp_def)
qed

lemma wf_tree_single:
  assumes "wf_tree ls rs t"
  shows "length ls = 1 \<longleftrightarrow> (\<exists>i. t = Leaf i)"
proof (cases t)
  case (Leaf i)
  with assms show ?thesis by (simp add: wf_tree_def)
next
  case (Split i l r)
  have "node_ids l \<noteq> []" "node_ids r \<noteq> []" by (cases l, simp_all) (cases r, simp_all)
  then have "length (node_ids l) \<ge> 1" "length (node_ids r) \<ge> 1"
    by (simp_all add: Suc_leI)
  with assms Split show ?thesis by (simp add: wf_tree_def)
qed

lemma wf_tree_replacement: "wf_tree [1, -1, -1] [2, -1, -1] (Split 0 (Leaf 1) (Leaf 2))"
  by (simp add: wf_tree_def)

lemma gemm_common_wf:
  assumes "wf_tree ls rs t" and "length fs = length ls" and "length ts = length ls"
    and "length vs = length ls"
  shows "\<exists>ls' rs' fs' ts' vs'.
           wf_tree ls' rs' (effective_shape t) \<and> ls' = effective_lefts ls
         \<and> length fs' = length ls' \<and> length ts' = length ls' \<and> length vs' = length ls'
         \<and> (length ls \<noteq> 1 \<longrightarrow> rs' = rs \<and> fs' = fs \<and> ts' = ts \<and> vs' = vs)
         \<and> (length ls = 1 \<longrightarrow> rs' = [2, -1, -1] \<and> fs' = [0, 0, 0] \<and> ts' = [0, 0, 0]
                \<and> vs' = [[0], hd vs, hd vs])
         \<and> get_parameters_for_gemm_common ls rs fs ts vs n_features
             = gemm_common_body ls' rs' fs' ts' vs' n_features"
proof (cases "length ls = 1")
  case True
  with wf_tree_single [OF assms(1)] obtain i where t: "t = Leaf i" by blast
  from True assms(4) obtain v where vs: "vs = [v]"
    by (cases vs) simp_all
  show ?thesis
    using True wf_tree_replacement
    by (simp add: t vs effective_shape_def effective_lefts_def get_parameters_for_gemm_common_def)
next
  case False
  with wf_tree_single [OF assms(1)] obtain i l r where t: "t = Split i l r"
    by (cases t) auto
  show ?thesis
    using False assms
    by (simp add: t effective_shape_def effective_lefts_def get_parameters_for_gemm_common_def)
qed

text \<open>
  C3. For a well-formed tree (a single leaf being replaced by the three-node tree first),
  the path layer of \<open>get_parameters_for_gemm_common\<close> has one row per leaf, leftmost
  leaf first, with one entry per split in array order (as many as the split layer has
  rows): \<open>+1\<close> at the splits where the root-to-leaf path goes to the left child, \<open>-1\<close>
  where it goes to the right child, \<open>0\<close> at the splits that are not on the path; the
  bias of the leaf is the number of left turns of its path, which is the number of \<open>+1\<close>
  entries of its row.
\<close>

theorem gemm_path_layer:
  assumes "wf_tree ls rs t" and "length fs = length ls" and "length ts = length ls"
    and "length vs = length ls"
  shows "\<exists>w1 b1 w3.
           get_parameters_for_gemm_common ls rs fs ts vs n_features
             = Inr ([Weight w1,
                     Weight (map (\<lambda>(p, leaf). map real_of_int (expected_row (effective_lefts ls) p))
                               (leaf_paths (effective_shape t))),
                     w3],
                    [Some b1,
                     Some (map (\<lambda>(p, leaf). real (length (filter snd p)))
                             (leaf_paths (effective_shape t))),
                     None])
         \<and> length w1 = length (split_ids (effective_lefts ls))
         \<and> list_all (\<lambda>(p, leaf). length (expected_row (effective_lefts ls) p) = length w1
                        \<and> count_list (expected_row (effective_lefts ls) p) 1 = length (filter snd p))
              (leaf_paths (effective_shape t))"
proof -
  from gemm_common_wf [OF assms, of n_features]
  obtain ls' rs' fs' ts' vs' where wf: "wf_tree ls' rs' (effective_shape t)"
    and ls': "ls' = effective_lefts ls"
    and len: "length fs' = length ls'" "length ts' = length ls'" "length vs' = length ls'"
    and run: "get_parameters_for_gemm_common ls rs fs ts vs n_features
                = gemm_common_body ls' rs' fs' ts' vs' n_features"
    by blast
  let ?t = "effective_shape t"
  from wf have e: "encodes ls' rs' ?t" and d: "distinct (node_ids ?t)"
    by (simp_all add: wf_tree_def)
  have rows: "map (map real_of_int) (path_rows ls' ?t)
                = map (\<lambda>(p, leaf). map real_of_int (expected_row ls' p)) (leaf_paths ?t)"
    by (simp add: path_rows_expected [OF e d] case_prod_unfold comp_def)
  have biases: "map real_of_int (path_biases ?t)
                  = map (\<lambda>(p, leaf). real (length (filter snd p))) (leaf_paths ?t)"
    by (simp add: path_biases_def case_prod_unfold comp_def)
  have counts: "list_all (\<lambda>(p, leaf).
                   length (expected_row ls' p) = length (fst (split_layer ls' fs' ts' n_features))
                   \<and> count_list (expected_row ls' p) 1 = length (filter snd p)) (leaf_paths ?t)"
    unfolding list_all_iff
  proof
    fix x assume x: "x \<in> set (leaf_paths ?t)"
    obtain p leaf where pl: "x = (p, leaf)" by (cases x)
    from leaf_paths_facts [OF e d x [unfolded pl]]
    have "count_list (expected_row ls' p) 1 = length (filter snd p)"
      by (intro expected_row_positive_count) auto
    moreover have "length (expected_row ls' p) = length (fst (split_layer ls' fs' ts' n_features))"
      by (simp add: expected_row_def split_layer_split_ids [OF len(1,2)])
    ultimately show "case x of (p, leaf) \<Rightarrow>
        length (expected_row ls' p) = length (fst (split_layer ls' fs' ts' n_features))
        \<and> count_list (expected_row ls' p) 1 = length (filter snd p)"
      by (simp add: pl)
  qed
  have "length (fst (split_layer ls' fs' ts' n_features)) = length (split_ids ls')"
    by (simp add: split_layer_split_ids [OF len(1,2)])
  with run gemm_common_body_wf [OF wf len, of n_features] rows biases counts
  show ?thesis unfolding ls' [symmetric] by auto
qed

theorem gemm_path_layer_witness:
  "wf_tree [1, 3, -1, -1, -1] [2, 4, -1, -1, -1] (Split 0 (Split 1 (Leaf 3) (Leaf 4)) (Leaf 2))
   \<and> (\<exists>w1 b1 w3.
        get_parameters_for_gemm_common [1, 3, -1, -1, -1] [2, 4, -1, -1, -1]
            [0, 1, -2, -2, -2] [5, 7, -2, -2, -2] [[0], [0], [1], [2], [3]] 2
          = Inr ([Weight w1, Weight [[1, 1], [1, -1], [-1, 0]], w3],
                 [Some b1, Some [2, 1, 0], None]))"
proof -
  have wf: "wf_tree [1, 3, -1, -1, -1] [2, 4, -1, -1, -1]
              (Split 0 (Split 1 (Leaf 3) (Leaf 4)) (Leaf 2))"
    by (simp add: wf_tree_def)
  from gemm_path_layer [OF wf, of "[0, 1, -2, -2, -2]" "[5, 7, -2, -2, -2]"
      "[[0], [0], [1], [2], [3]]" 2]
  have "\<exists>w1 b1 w3.
        get_parameters_for_gemm_common [1, 3, -1, -1, -1] [2, 4, -1, -1, -1]
            [0, 1, -2, -2, -2] [5, 7, -2, -2, -2] [[0], [0], [1], [2], [3]] 2
          = Inr ([Weight w1, Weight [[1, 1], [1, -1], [-1, 0]], w3],
                 [Some b1, Some [2, 1, 0], None])"
    by (simp add: effective_shape_def effective_lefts_def expected_row_def split_ids_def upt_rec)
      blast
  with wf show ?thesis by blast
qed

section \<open>The class layer\<close>


text \<open>The value rows the function works on after the single-leaf replacement.\<close>

definition effective_values :: "int list \<Rightarrow> real list list \<Rightarrow> real list list" where
  "effective_values ls vs = (if length ls = 1 then [[0], hd vs, hd vs] else vs)"

lemma sum_list_normalized:
  assumes "sum_list v \<noteq> 0"
  shows "sum_list (normalized v) = 1"
proof -
  have "sum_list (map (\<lambda>y. y / c) v) = sum_list v / c" for c :: real
    by (induction v) (simp_all add: add_divide_distrib)
  with assms show ?thesis by (simp add: normalized_def)
qed

lemma shape_last_rectangular:
  assumes "list_all (\<lambda>v. length v = k) vs" and "vs \<noteq> []"
  shows "shape_last vs = k"
proof -
  from assms obtain v rest where vs: "vs = v # rest" by (cases vs) auto
  with assms(1) have "length v = k" "list_all (\<lambda>w. length w = length v) rest"
    by (auto simp add: list_all_iff)
  with vs show ?thesis by (simp add: shape_last_def)
qed

lemma class_column_rectangular:
  assumes "list_all (\<lambda>v. length v = k) vs" and "v \<in> set vs"
  shows "class_column vs v = expected_column v"
proof -
  from assms have "length v = k" "vs \<noteq> []" by (auto simp add: list_all_iff)
  with shape_last_rectangular [OF assms(1)] show ?thesis
    by (auto simp add: class_column_def expected_column_def normalized_def)
qed

lemma leaf_paths_nonempty: "leaf_paths t \<noteq> []"
  by (induction t) simp_all

lemma column_of_transpose:
  assumes "list_all (\<lambda>c. length c = k) cols" and "cols \<noteq> []" and "j < length cols"
  shows "map (\<lambda>row. row ! j) (transpose cols) = cols ! j"
proof -
  have rect: "\<And>i. i < length cols \<Longrightarrow> length (cols ! i) = k"
    using assms(1) by (simp add: list_all_length)
  have "transpose cols = map (\<lambda>i. map (\<lambda>j. cols ! j ! i) [0..<length cols]) [0..<k]"
    using assms(2) rect by (intro transpose_rectangle) simp_all
  then have "map (\<lambda>row. row ! j) (transpose cols) = map (\<lambda>i. cols ! j ! i) [0..<k]"
    using assms(3) by (simp add: comp_def)
  also have "\<dots> = cols ! j"
    using rect [OF assms(3)] by (auto intro: nth_equalityI)
  finally show ?thesis .
qed


lemma class_columns_expected:
  assumes "wf_tree ls rs t" and "length fs = length ls" and "length ts = length ls"
    and "length vs = length ls" and "list_all (\<lambda>v. length v = k) vs"
  shows "\<exists>w1 b1 w2 b2.
           get_parameters_for_gemm_common ls rs fs ts vs n_features
             = Inr ([Weight w1, Weight w2,
                     class_layer (map (\<lambda>(p, leaf). expected_column (effective_values ls vs ! leaf))
                                    (leaf_paths (effective_shape t)))],
                    [Some b1, Some b2, None])"
    and "list_all (\<lambda>(p, leaf). length (effective_values ls vs ! leaf) = k)
           (leaf_paths (effective_shape t))"
proof -
  let ?t = "effective_shape t" and ?vs = "effective_values ls vs"
  from gemm_common_wf [OF assms(1-4), of n_features]
  obtain ls' rs' fs' ts' vs' where wf: "wf_tree ls' rs' ?t"
    and len: "length fs' = length ls'" "length ts' = length ls'" "length vs' = length ls'"
    and keep: "length ls \<noteq> 1 \<longrightarrow> vs' = vs"
    and repl: "length ls = 1 \<longrightarrow> vs' = [[0], hd vs, hd vs]"
    and run: "get_parameters_for_gemm_common ls rs fs ts vs n_features
                = gemm_common_body ls' rs' fs' ts' vs' n_features"
    by blast
  from keep repl have vs': "vs' = ?vs" by (simp add: effective_values_def)
  from wf have e: "encodes ls' rs' ?t" by (simp add: wf_tree_def)
  have leaf: "class_column ?vs (?vs ! leaf) = expected_column (?vs ! leaf)
              \<and> length (?vs ! leaf) = k"
    if "(p, leaf) \<in> set (leaf_paths ?t)" for p leaf
  proof (cases "length ls = 1")
    case True
    with wf_tree_single [OF assms(1)] obtain i where t: "t = Leaf i" by blast
    from True assms(4) obtain v where v: "vs = [v]" by (cases vs) simp_all
    with assms(5) have "length v = k" by simp
    with that True show ?thesis
      by (auto simp add: t v effective_shape_def effective_values_def class_column_replacement)
  next
    case False
    from leaf_paths_facts [OF e _ that] wf have "leaf \<in> set (node_ids ?t)"
      by (simp add: wf_tree_def)
    with e have "leaf < length ls'" by (rule encodes_ids_bound)
    with len(3) vs' False have "?vs ! leaf \<in> set vs" by (simp add: effective_values_def)
    with class_column_rectangular [OF assms(5) this] assms(5) False show ?thesis
      by (simp add: effective_values_def list_all_iff)
  qed
  have "class_columns ?vs ?t = map (\<lambda>(p, leaf). expected_column (?vs ! leaf)) (leaf_paths ?t)"
    unfolding class_columns_def using leaf by (intro map_cong refl) auto
  with run gemm_common_body_wf [OF wf len, of n_features] vs'
  show "\<exists>w1 b1 w2 b2.
           get_parameters_for_gemm_common ls rs fs ts vs n_features
             = Inr ([Weight w1, Weight w2,
                     class_layer (map (\<lambda>(p, leaf). expected_column (?vs ! leaf)) (leaf_paths ?t))],
                    [Some b1, Some b2, None])"
    by simp
  show "list_all (\<lambda>(p, leaf). length (?vs ! leaf) = k) (leaf_paths ?t)"
    unfolding list_all_iff using leaf by auto
qed


lemma expected_column_length: "expected_column v = Some c \<Longrightarrow> length c = length v"
  by (auto simp add: expected_column_def normalized_def split: if_splits)

text \<open>
  C4. For a well-formed tree whose value vectors all have \<open>k\<close> entries (a single leaf
  being replaced by the three-node tree first), \<open>get_parameters_for_gemm_common\<close> returns
  three layers whose third bias is \<open>None\<close> and whose class layer has one column per leaf,
  leftmost leaf first. For \<open>k > 1\<close> the column of a leaf is its value vector divided by
  its sum, a column that sums to 1 whenever that sum is not zero; for \<open>k \<le> 1\<close> the
  column is the value vector itself. When no leaf of more than one entry sums to zero,
  the class layer is a matrix, and its \<open>j\<close>-th column is the column of the \<open>j\<close>-th leaf.
\<close>

theorem gemm_class_layer:
  assumes "wf_tree ls rs t" and "length fs = length ls" and "length ts = length ls"
    and "length vs = length ls" and "list_all (\<lambda>v. length v = k) vs"
  shows "(\<exists>w1 b1 w2 b2.
            get_parameters_for_gemm_common ls rs fs ts vs n_features
              = Inr ([Weight w1, Weight w2,
                      class_layer (map (\<lambda>(p, leaf). expected_column (effective_values ls vs ! leaf))
                                     (leaf_paths (effective_shape t)))],
                     [Some b1, Some b2, None]))
       \<and> list_all (\<lambda>(p, leaf).
              length (effective_values ls vs ! leaf) = k
            \<and> (1 < k \<and> sum_list (effective_values ls vs ! leaf) \<noteq> 0 \<longrightarrow>
                 expected_column (effective_values ls vs ! leaf)
                   = Some (normalized (effective_values ls vs ! leaf))
               \<and> sum_list (normalized (effective_values ls vs ! leaf)) = 1)
            \<and> (k \<le> 1 \<longrightarrow>
                 expected_column (effective_values ls vs ! leaf)
                   = Some (effective_values ls vs ! leaf)))
           (leaf_paths (effective_shape t))
       \<and> (list_all (\<lambda>(p, leaf). k \<le> 1 \<or> sum_list (effective_values ls vs ! leaf) \<noteq> 0)
             (leaf_paths (effective_shape t)) \<longrightarrow>
           (\<exists>w3. class_layer (map (\<lambda>(p, leaf). expected_column (effective_values ls vs ! leaf))
                                 (leaf_paths (effective_shape t))) = Weight w3
                \<and> (\<forall>j < length (leaf_paths (effective_shape t)).
                      Some (map (\<lambda>row. row ! j) w3)
                        = expected_column
                            (effective_values ls vs ! snd (leaf_paths (effective_shape t) ! j)))))"
proof -
  let ?t = "effective_shape t" and ?vs = "effective_values ls vs"
  let ?cols = "map (\<lambda>(p, leaf). expected_column (?vs ! leaf)) (leaf_paths ?t)"
  note main = class_columns_expected [OF assms]
  have lens: "length (?vs ! leaf) = k" if "(p, leaf) \<in> set (leaf_paths ?t)" for p leaf
    using main(2) that by (auto simp add: list_all_iff)
  have part2: "list_all (\<lambda>(p, leaf).
              length (?vs ! leaf) = k
            \<and> (1 < k \<and> sum_list (?vs ! leaf) \<noteq> 0 \<longrightarrow>
                 expected_column (?vs ! leaf) = Some (normalized (?vs ! leaf))
               \<and> sum_list (normalized (?vs ! leaf)) = 1)
            \<and> (k \<le> 1 \<longrightarrow> expected_column (?vs ! leaf) = Some (?vs ! leaf)))
           (leaf_paths ?t)"
    unfolding list_all_iff using lens
    by (auto simp add: expected_column_def sum_list_normalized)
  have part3: "\<exists>w3. class_layer ?cols = Weight w3
                \<and> (\<forall>j < length (leaf_paths ?t).
                      Some (map (\<lambda>row. row ! j) w3)
                        = expected_column (?vs ! snd (leaf_paths ?t ! j)))"
    if fin: "list_all (\<lambda>(p, leaf). k \<le> 1 \<or> sum_list (?vs ! leaf) \<noteq> 0) (leaf_paths ?t)"
  proof -
    have some: "expected_column (?vs ! leaf) \<noteq> None"
      if "(p, leaf) \<in> set (leaf_paths ?t)" for p leaf
      using fin that lens [OF that] by (auto simp add: list_all_iff expected_column_def)
    then have all: "list_all (\<lambda>c. c \<noteq> None) ?cols"
      by (auto simp add: list_all_iff)
    then have w3: "class_layer ?cols = Weight (transpose (map the ?cols))"
      by (simp add: class_layer_def)
    have rect: "list_all (\<lambda>c. length c = k) (map the ?cols)"
      unfolding list_all_iff
    proof
      fix c assume "c \<in> set (map the ?cols)"
      then obtain p leaf where pl: "(p, leaf) \<in> set (leaf_paths ?t)"
        and c: "c = the (expected_column (?vs ! leaf))"
        by auto
      from some [OF pl] obtain c' where "expected_column (?vs ! leaf) = Some c'" by blast
      with c lens [OF pl] show "length c = k" by (simp add: expected_column_length)
    qed
    have ne: "map the ?cols \<noteq> []" by (simp add: leaf_paths_nonempty)
    have "Some (map (\<lambda>row. row ! j) (transpose (map the ?cols)))
            = expected_column (?vs ! snd (leaf_paths ?t ! j))"
      if j: "j < length (leaf_paths ?t)" for j
    proof -
      from j have "leaf_paths ?t ! j \<in> set (leaf_paths ?t)" by simp
      then have "(fst (leaf_paths ?t ! j), snd (leaf_paths ?t ! j)) \<in> set (leaf_paths ?t)"
        by simp
      from some [OF this] obtain c where c: "expected_column (?vs ! snd (leaf_paths ?t ! j)) = Some c"
        by blast
      from j have "map the ?cols ! j = the (expected_column (?vs ! snd (leaf_paths ?t ! j)))"
        by (simp add: case_prod_unfold)
      with column_of_transpose [OF rect ne, of j] j c show ?thesis by simp
    qed
    with w3 show ?thesis by blast
  qed
  from main(1) [of n_features] part2 part3 show ?thesis by blast
qed

theorem gemm_class_layer_witness:
  "wf_tree [1, -1, -1] [2, -1, -1] (Split 0 (Leaf 1) (Leaf 2))
   \<and> list_all (\<lambda>v. length v = 2) [[0, 0], [1, 3], [2, 2 :: real]]
   \<and> (\<exists>w1 b1 w2 b2.
        get_parameters_for_gemm_common [1, -1, -1] [2, -1, -1] [0, -2, -2] [5, -2, -2]
            [[0, 0], [1, 3], [2, 2]] 2
          = Inr ([Weight w1, Weight w2, Weight [[1 / 4, 1 / 2], [3 / 4, 1 / 2]]],
                 [Some b1, Some b2, None]))"
proof -
  have wf: "wf_tree [1, -1, -1] [2, -1, -1] (Split 0 (Leaf 1) (Leaf 2))"
    by (simp add: wf_tree_def)
  have rect: "list_all (\<lambda>v. length v = 2) [[0, 0], [1, 3], [2, 2 :: real]]" by simp
  from gemm_class_layer [OF wf _ _ _ rect, of "[0, -2, -2]" "[5, -2, -2]" 2]
  have "\<exists>w1 b1 w2 b2.
        get_parameters_for_gemm_common [1, -1, -1] [2, -1, -1] [0, -2, -2] [5, -2, -2]
            [[0, 0], [1, 3], [2, 2]] 2
          = Inr ([Weight w1, Weight w2, Weight [[1 / 4, 1 / 2], [3 / 4, 1 / 2]]],
                 [Some b1, Some b2, None])"
    by (simp add: effective_shape_def effective_values_def expected_column_def normalized_def
        class_layer_def)
  with wf rect show ?thesis by blast
qed

section \<open>The depth of well-formed trees\<close>

text \<open>The depth of a shape: the number of splits on its longest path from the root to a
  leaf. In a shape that is numbered parent first, every child has a larger id than its
  parent, as in the arrays the tree libraries produce.\<close>

fun height :: "tree_shape \<Rightarrow> nat" where
  "height (Leaf i) = 0"
| "height (Split i l r) = Suc (max (height l) (height r))"

fun parent_first :: "tree_shape \<Rightarrow> bool" where
  "parent_first (Leaf i) = True"
| "parent_first (Split i l r) =
     (i < root_id l \<and> i < root_id r \<and> parent_first l \<and> parent_first r)"

lemma node_children:
  assumes "encodes ls rs t" and "distinct (node_ids t)" and "j \<in> set (node_ids t)"
  shows "(ls ! j = -1 \<and> rs ! j = -1)
       \<or> (\<exists>a b. ls ! j = int a \<and> rs ! j = int b \<and> a \<noteq> b
              \<and> a \<in> set (node_ids t) - {root_id t} \<and> b \<in> set (node_ids t) - {root_id t})"
  using assms
proof (induction t)
  case (Leaf i)
  then show ?case by simp
next
  case (Split i l r)
  have rl: "root_id l \<in> set (node_ids l)" and rr: "root_id r \<in> set (node_ids r)"
    by (rule root_in_ids)+
  from Split.prems have el: "encodes ls rs l" and er: "encodes ls rs r"
    and dl: "distinct (node_ids l)" and dr: "distinct (node_ids r)"
    and disj: "set (node_ids l) \<inter> set (node_ids r) = {}"
    and il: "i \<notin> set (node_ids l)" and ir: "i \<notin> set (node_ids r)"
    by simp_all
  from Split.prems(3) consider "j = i" | "j \<in> set (node_ids l)" | "j \<in> set (node_ids r)"
    by auto
  then show ?case
  proof cases
    case 1
    with Split.prems(1) rl rr disj il ir show ?thesis by auto
  next
    case 2
    from Split.IH(1) [OF el dl 2] il show ?thesis by auto
  next
    case 3
    from Split.IH(2) [OF er dr 3] ir show ?thesis by auto
  qed
qed

lemma node_children_later:
  assumes "encodes ls rs t" and "parent_first t" and "j \<in> set (node_ids t)"
  shows "(ls ! j = -1 \<or> int j < ls ! j) \<and> (rs ! j = -1 \<or> int j < rs ! j)"
  using assms by (induction t) auto

lemma root_least:
  assumes "parent_first t" and "j \<in> set (node_ids t)"
  shows "root_id t \<le> j"
  using assms
proof (induction t)
  case (Leaf i)
  then show ?case by simp
next
  case (Split i l r)
  from Split.prems(2) consider "j = i" | "j \<in> set (node_ids l)" | "j \<in> set (node_ids r)"
    by auto
  then show ?case
  proof cases
    case 1
    then show ?thesis by simp
  next
    case 2
    with Split.IH(1) Split.prems(1) have "root_id l \<le> j" by simp
    with Split.prems(1) show ?thesis by simp
  next
    case 3
    with Split.IH(2) Split.prems(1) have "root_id r \<le> j" by simp
    with Split.prems(1) show ?thesis by simp
  qed
qed

lemma node_parent:
  assumes "encodes ls rs t" and "j \<in> set (node_ids t)" and "j \<noteq> root_id t"
  shows "\<exists>p \<in> set (node_ids t). ls ! p = int j \<or> rs ! p = int j"
  using assms
proof (induction t)
  case (Leaf i)
  then show ?case by simp
next
  case (Split i l r)
  from Split.prems(2,3) consider "j \<in> set (node_ids l)" | "j \<in> set (node_ids r)"
    by auto
  then show ?case
  proof cases
    case 1
    show ?thesis
    proof (cases "j = root_id l")
      case True
      with Split.prems(1) show ?thesis by auto
    next
      case False
      with Split.IH(1) Split.prems(1) 1 show ?thesis by auto
    qed
  next
    case 2
    show ?thesis
    proof (cases "j = root_id r")
      case True
      with Split.prems(1) show ?thesis by auto
    next
      case False
      with Split.IH(2) Split.prems(1) 2 show ?thesis by auto
    qed
  qed
qed

lemma one_parent:
  assumes "encodes ls rs t" and "distinct (node_ids t)"
    and "i \<in> set (node_ids t)" and "j \<in> set (node_ids t)" and "i \<noteq> j"
    and "c \<noteq> -1" and "ls ! i = c \<or> rs ! i = c"
  shows "ls ! j \<noteq> c \<and> rs ! j \<noteq> c"
  using assms
proof (induction t)
  case (Leaf k)
  then show ?case by simp
next
  case (Split k l r)
  have rl: "root_id l \<in> set (node_ids l)" and rr: "root_id r \<in> set (node_ids r)"
    by (rule root_in_ids)+
  from Split.prems have el: "encodes ls rs l" and er: "encodes ls rs r"
    and dl: "distinct (node_ids l)" and dr: "distinct (node_ids r)"
    and disj: "set (node_ids l) \<inter> set (node_ids r) = {}"
    and kl: "k \<notin> set (node_ids l)" and kr: "k \<notin> set (node_ids r)"
    and top: "ls ! k = int (root_id l)" "rs ! k = int (root_id r)"
    by simp_all
  have inl: "ls ! n \<noteq> c' \<and> rs ! n \<noteq> c'"
    if "n \<in> set (node_ids l)" "c' = int (root_id l) \<or> c' = int b" "b \<in> set (node_ids r)" for n c' b
    using node_children [OF el dl that(1)] that(2,3) disj by auto
  have inr: "ls ! n \<noteq> c' \<and> rs ! n \<noteq> c'"
    if "n \<in> set (node_ids r)" "c' = int (root_id r) \<or> c' = int b" "b \<in> set (node_ids l)" for n c' b
    using node_children [OF er dr that(1)] that(2,3) disj by auto
  from Split.prems(3) consider (a) "i = k" | (b) "i \<in> set (node_ids l)" | (c) "i \<in> set (node_ids r)"
    by auto
  then show ?case
  proof cases
    case a
    with Split.prems(4,5) consider "j \<in> set (node_ids l)" | "j \<in> set (node_ids r)" by auto
    then show ?thesis
    proof cases
      case 1
      from a top Split.prems(7) have "c = int (root_id l) \<or> c = int (root_id r)" by auto
      with inl [OF 1, of c "root_id r"] rr show ?thesis by auto
    next
      case 2
      from a top Split.prems(7) have "c = int (root_id r) \<or> c = int (root_id l)" by auto
      with inr [OF 2, of c "root_id l"] rl show ?thesis by auto
    qed
  next
    case b
    from node_children [OF el dl b] Split.prems(6,7)
    obtain cn where cn: "c = int cn" "cn \<in> set (node_ids l)" "cn \<noteq> root_id l" by auto
    from Split.prems(4) consider "j = k" | "j \<in> set (node_ids l)" | "j \<in> set (node_ids r)"
      by auto
    then show ?thesis
    proof cases
      case 1
      with top cn rr disj show ?thesis by auto
    next
      case 2
      from Split.IH(1) [OF el dl b 2 Split.prems(5,6,7)] show ?thesis .
    next
      case 3
      from inr [OF 3, of c cn] cn show ?thesis by auto
    qed
  next
    case c
    from node_children [OF er dr c] Split.prems(6,7)
    obtain cn where cn: "c = int cn" "cn \<in> set (node_ids r)" "cn \<noteq> root_id r" by auto
    from Split.prems(4) consider "j = k" | "j \<in> set (node_ids l)" | "j \<in> set (node_ids r)"
      by auto
    then show ?thesis
    proof cases
      case 1
      with top cn rl disj show ?thesis by auto
    next
      case 2
      from inl [OF 2, of c cn] cn show ?thesis by auto
    next
      case 3
      from Split.IH(2) [OF er dr c 3 Split.prems(5,6,7)] show ?thesis .
    qed
  qed
qed

text \<open>What the loop of the depth analysis relies on, read off the arrays: every node is
  a leaf or has two different children with larger ids, no node is the child of two
  nodes, and every node but the root is the child of an earlier node.\<close>

definition numbered :: "int list \<Rightarrow> int list \<Rightarrow> bool" where
  "numbered ls rs \<longleftrightarrow>
     length rs = length ls
   \<and> (\<forall>j < length ls. (ls ! j = -1 \<and> rs ! j = -1)
          \<or> (\<exists>a b. ls ! j = int a \<and> rs ! j = int b \<and> a \<noteq> b \<and> j < a \<and> j < b
                 \<and> a < length ls \<and> b < length ls))
   \<and> (\<forall>i < length ls. \<forall>j < length ls. \<forall>c. i \<noteq> j \<and> c \<noteq> -1 \<and> (ls ! i = c \<or> rs ! i = c)
          \<longrightarrow> ls ! j \<noteq> c \<and> rs ! j \<noteq> c)
   \<and> (\<forall>j < length ls. 0 < j \<longrightarrow> (\<exists>p < j. ls ! p = int j \<or> rs ! p = int j))"

lemma wf_numbered:
  assumes "wf_tree ls rs t" and "parent_first t"
  shows "numbered ls rs"
proof -
  from assms(1) have lr: "length rs = length ls" and e: "encodes ls rs t"
    and root: "root_id t = 0" and d: "distinct (node_ids t)"
    by (simp_all add: wf_tree_def)
  note ids = wf_tree_ids [OF assms(1)]
  have mem: "j \<in> set (node_ids t) \<longleftrightarrow> j < length ls" for j using ids by simp
  have a: "(ls ! j = -1 \<and> rs ! j = -1)
          \<or> (\<exists>a b. ls ! j = int a \<and> rs ! j = int b \<and> a \<noteq> b \<and> j < a \<and> j < b
                 \<and> a < length ls \<and> b < length ls)" if "j < length ls" for j
  proof -
    from that have j: "j \<in> set (node_ids t)" by (simp add: mem)
    from node_children [OF e d j] node_children_later [OF e assms(2) j] show ?thesis
      by (auto simp add: mem)
  qed
  have b: "ls ! j \<noteq> c \<and> rs ! j \<noteq> c"
    if "i < length ls" "j < length ls" "i \<noteq> j" "c \<noteq> -1" "ls ! i = c \<or> rs ! i = c" for i j c
    using one_parent [OF e d _ _ that(3,4,5)] that(1,2) by (simp add: mem)
  have c: "\<exists>p < j. ls ! p = int j \<or> rs ! p = int j" if "j < length ls" "0 < j" for j
  proof -
    from that have j: "j \<in> set (node_ids t)" "j \<noteq> root_id t" by (simp_all add: mem root)
    from node_parent [OF e j] obtain p where p: "p \<in> set (node_ids t)"
      "ls ! p = int j \<or> rs ! p = int j" by blast
    from node_children_later [OF e assms(2) p(1)] p(2) have "p < j" by auto
    with p(2) show ?thesis by blast
  qed
  from lr a b c show ?thesis unfolding numbered_def by blast
qed

text \<open>The invariant of the loop after \<open>k\<close> nodes: every address of the node map points
  into the store and belongs to one id only, the root and the children of the nodes
  processed so far are in the map, and the Node of every processed node has the child
  fields \<open>-1\<close> or a reference to the Node that the map holds for the child.\<close>

definition child_ref :: "(int \<rightharpoonup> nat) \<Rightarrow> int \<Rightarrow> node_ref" where
  "child_ref m c = (if c = -1 then Minus1 else case m c of None \<Rightarrow> Unset | Some a \<Rightarrow> Ref a)"

definition depth_inv :: "int list \<Rightarrow> int list \<Rightarrow> nat \<Rightarrow> depth_state \<Rightarrow> bool" where
  "depth_inv ls rs k st \<longleftrightarrow>
     ds_current_node st = int k
   \<and> (\<forall>i a. ds_nodes_map st i = Some a \<longrightarrow> a < length (ds_heap st))
   \<and> (\<forall>i j a. ds_nodes_map st i = Some a \<and> ds_nodes_map st j = Some a \<longrightarrow> i = j)
   \<and> (\<forall>j < length ls. j = 0 \<or> (\<exists>p < k. ls ! p = int j \<or> rs ! p = int j)
          \<longrightarrow> ds_nodes_map st (int j) \<noteq> None)
   \<and> (\<forall>j < k. \<exists>a. ds_nodes_map st (int j) = Some a
          \<and> node_left (ds_heap st ! a) = child_ref (ds_nodes_map st) (ls ! j)
          \<and> node_right (ds_heap st ! a) = child_ref (ds_nodes_map st) (rs ! j))"

lemma depth_inv_initial:
  "depth_inv ls rs 0 \<lparr>ds_heap = [new_Node 0], ds_nodes_map = [0 \<mapsto> 0],
                        ds_lefts = ls', ds_rights = rs', ds_current_node = 0\<rparr>"
  by (auto simp add: depth_inv_def split: if_splits)

lemma depth_step_leaf:
  assumes "ds_nodes_map st (ds_current_node st) = Some a"
  shows "depth_step (ident, -1, -1) st
           = Inr (st\<lparr>ds_lefts := (ds_lefts st)[nat ident := ident],
                     ds_rights := (ds_rights st)[nat ident := ident],
                     ds_heap := (ds_heap st)[a := (ds_heap st ! a)\<lparr>node_left := Minus1,
                                                                  node_right := Minus1\<rparr>],
                     ds_current_node := ds_current_node st + 1\<rparr>)"
  using assms by (simp add: depth_step_def)

lemma depth_step_split:
  assumes "ds_nodes_map st (ds_current_node st) = Some a"
    and "l \<noteq> -1" and "r \<noteq> -1" and "l \<noteq> ds_current_node st" and "r \<noteq> ds_current_node st"
  shows "depth_step (ident, l, r) st
           = Inr (st\<lparr>ds_heap := (ds_heap st @ [new_Node l, new_Node r])
                                    [a := ((ds_heap st @ [new_Node l, new_Node r]) ! a)
                                            \<lparr>node_left := Ref (length (ds_heap st)),
                                             node_right := Ref (Suc (length (ds_heap st)))\<rparr>],
                     ds_nodes_map := (ds_nodes_map st)(l \<mapsto> length (ds_heap st),
                                                       r \<mapsto> Suc (length (ds_heap st))),
                     ds_current_node := ds_current_node st + 1\<rparr>)"
  using assms by (simp add: depth_step_def)

lemma depth_inv_step:
  assumes num: "numbered ls rs" and k: "k < length ls" and inv: "depth_inv ls rs k st"
  shows "\<exists>st'. depth_step (int k, ls ! k, rs ! k) st = Inr st' \<and> depth_inv ls rs (Suc k) st'"
proof -
  let ?m = "ds_nodes_map st" and ?h = "ds_heap st"
  from inv have cur: "ds_current_node st = int k"
    and bound: "\<And>i a. ?m i = Some a \<Longrightarrow> a < length ?h"
    and inj: "\<And>i j a. ?m i = Some a \<Longrightarrow> ?m j = Some a \<Longrightarrow> i = j"
    and reach: "\<And>j. j < length ls \<Longrightarrow> j = 0 \<or> (\<exists>p < k. ls ! p = int j \<or> rs ! p = int j)
                  \<Longrightarrow> ?m (int j) \<noteq> None"
    and proc: "\<And>j. j < k \<Longrightarrow> \<exists>a. ?m (int j) = Some a
                  \<and> node_left (?h ! a) = child_ref ?m (ls ! j)
                  \<and> node_right (?h ! a) = child_ref ?m (rs ! j)"
    unfolding depth_inv_def by blast+
  from num have shape: "\<And>j. j < length ls \<Longrightarrow> (ls ! j = -1 \<and> rs ! j = -1)
          \<or> (\<exists>a b. ls ! j = int a \<and> rs ! j = int b \<and> a \<noteq> b \<and> j < a \<and> j < b
                 \<and> a < length ls \<and> b < length ls)"
    and uniq: "\<And>i j c. i < length ls \<Longrightarrow> j < length ls \<Longrightarrow> i \<noteq> j \<Longrightarrow> c \<noteq> -1
                 \<Longrightarrow> ls ! i = c \<or> rs ! i = c \<Longrightarrow> ls ! j \<noteq> c \<and> rs ! j \<noteq> c"
    and parent: "\<And>j. j < length ls \<Longrightarrow> 0 < j \<Longrightarrow> \<exists>p < j. ls ! p = int j \<or> rs ! p = int j"
    unfolding numbered_def by blast+
  have "k = 0 \<or> (\<exists>p < k. ls ! p = int k \<or> rs ! p = int k)"
    using parent [OF k] by (cases "k = 0") simp_all
  from reach [OF k this] obtain ak where ak: "?m (int k) = Some ak" by blast
  from bound [OF ak] have akb: "ak < length ?h" .
  from shape [OF k] show ?thesis
  proof (elim disjE conjE exE)
    assume leaf: "ls ! k = -1" "rs ! k = -1"
    let ?st' = "st\<lparr>ds_lefts := (ds_lefts st)[nat (int k) := int k],
                     ds_rights := (ds_rights st)[nat (int k) := int k],
                     ds_heap := ?h[ak := (?h ! ak)\<lparr>node_left := Minus1, node_right := Minus1\<rparr>],
                     ds_current_node := ds_current_node st + 1\<rparr>"
    have step: "depth_step (int k, ls ! k, rs ! k) st = Inr ?st'"
      unfolding leaf using ak cur by (intro depth_step_leaf) simp
    have i1: "ds_current_node ?st' = int (Suc k)" using cur by simp
    have i2: "a < length (ds_heap ?st')" if "ds_nodes_map ?st' i = Some a" for i a
      using that bound by simp
    have i3: "i = j" if "ds_nodes_map ?st' i = Some a" "ds_nodes_map ?st' j = Some a" for i j a
      using that inj by simp
    have i4: "ds_nodes_map ?st' (int j) \<noteq> None"
      if "j < length ls" "j = 0 \<or> (\<exists>p < Suc k. ls ! p = int j \<or> rs ! p = int j)" for j
    proof -
      from that(2) leaf have "j = 0 \<or> (\<exists>p < k. ls ! p = int j \<or> rs ! p = int j)"
        by (auto simp add: less_Suc_eq)
      from reach [OF that(1) this] show ?thesis by simp
    qed
    have i5: "\<exists>a. ds_nodes_map ?st' (int j) = Some a
          \<and> node_left (ds_heap ?st' ! a) = child_ref (ds_nodes_map ?st') (ls ! j)
          \<and> node_right (ds_heap ?st' ! a) = child_ref (ds_nodes_map ?st') (rs ! j)"
      if "j < Suc k" for j
    proof (cases "j = k")
      case True
      with ak akb leaf show ?thesis by (simp add: child_ref_def)
    next
      case False
      with that have "j < k" by simp
      from proc [OF this] obtain a where a: "?m (int j) = Some a"
        "node_left (?h ! a) = child_ref ?m (ls ! j)" "node_right (?h ! a) = child_ref ?m (rs ! j)"
        by blast
      have "a \<noteq> ak" using inj [of "int j" a "int k"] a(1) ak False by auto
      with a show ?thesis by simp
    qed
    from i1 i2 i3 i4 i5 have "depth_inv ls rs (Suc k) ?st'"
      unfolding depth_inv_def by blast
    with step show ?thesis by blast
  next
    fix a b
    assume split: "ls ! k = int a" "rs ! k = int b" "a \<noteq> b" "k < a" "k < b"
      "a < length ls" "b < length ls"
    let ?n = "length ?h"
    let ?h2 = "?h @ [new_Node (int a), new_Node (int b)]"
    let ?m' = "?m(int a \<mapsto> ?n, int b \<mapsto> Suc ?n)"
    let ?st' = "st\<lparr>ds_heap := ?h2[ak := (?h2 ! ak)\<lparr>node_left := Ref ?n, node_right := Ref (Suc ?n)\<rparr>],
                     ds_nodes_map := ?m',
                     ds_current_node := ds_current_node st + 1\<rparr>"
    have step: "depth_step (int k, ls ! k, rs ! k) st = Inr ?st'"
      unfolding split(1,2) using ak cur split(4,5) by (intro depth_step_split) simp_all
    have m'a: "?m' (int a) = Some ?n" using split(3) by simp
    have m'b: "?m' (int b) = Some (Suc ?n)" by simp
    have m'o: "?m' i = ?m i" if "i \<noteq> int a" "i \<noteq> int b" for i using that by simp
    have i1: "ds_current_node ?st' = int (Suc k)" using cur by simp
    have i2: "x < length (ds_heap ?st')" if "ds_nodes_map ?st' i = Some x" for i x
    proof -
      from that have "?m' i = Some x" by simp
      then have "x = ?n \<or> x = Suc ?n \<or> ?m i = Some x" by (auto split: if_splits)
      with bound [of i x] show ?thesis by auto
    qed
    have i3: "i = j" if "ds_nodes_map ?st' i = Some x" "ds_nodes_map ?st' j = Some x" for i j x
    proof -
      from that have ij: "?m' i = Some x" "?m' j = Some x" by simp_all
      have old: "?m c = Some y \<Longrightarrow> y \<noteq> ?n \<and> y \<noteq> Suc ?n" for c y using bound [of c y] by auto
      from ij old [of i x] old [of j x] inj [of i x j] split(3) show ?thesis
        by (auto split: if_splits)
    qed
    have i4: "ds_nodes_map ?st' (int j) \<noteq> None"
      if "j < length ls" "j = 0 \<or> (\<exists>p < Suc k. ls ! p = int j \<or> rs ! p = int j)" for j
    proof (cases "j = a \<or> j = b")
      case True
      then show ?thesis by auto
    next
      case False
      with that(2) split(1,2) have "j = 0 \<or> (\<exists>p < k. ls ! p = int j \<or> rs ! p = int j)"
        by (auto simp add: less_Suc_eq)
      from reach [OF that(1) this] False show ?thesis by simp
    qed
    have i5: "\<exists>x. ds_nodes_map ?st' (int j) = Some x
          \<and> node_left (ds_heap ?st' ! x) = child_ref (ds_nodes_map ?st') (ls ! j)
          \<and> node_right (ds_heap ?st' ! x) = child_ref (ds_nodes_map ?st') (rs ! j)"
      if "j < Suc k" for j
    proof (cases "j = k")
      case True
      have "?m' (int k) = Some ak" using ak split(4,5) by simp
      moreover have "ak < length ?h2" using akb by simp
      ultimately show ?thesis
        using True split(1,2) m'a m'b by (simp add: child_ref_def)
    next
      case False
      with that have jk: "j < k" by simp
      with k have jn: "j < length ls" by simp
      from proc [OF jk] obtain x where x: "?m (int j) = Some x"
        "node_left (?h ! x) = child_ref ?m (ls ! j)" "node_right (?h ! x) = child_ref ?m (rs ! j)"
        by blast
      have ne: "x \<noteq> ak" using inj [of "int j" x "int k"] x(1) ak False by auto
      from bound [OF x(1)] have xb: "x < ?n" .
      from jk split(4,5) have mj: "?m' (int j) = Some x" using x(1) by simp
      have keep: "child_ref ?m' c = child_ref ?m c" if "c = ls ! j \<or> c = rs ! j" for c
      proof (cases "c = -1")
        case True
        then show ?thesis by (simp add: child_ref_def)
      next
        case c: False
        from uniq [OF jn k False c] that split(1,2) have "c \<noteq> int a" "c \<noteq> int b" by auto
        then show ?thesis by (simp add: child_ref_def)
      qed
      from xb ne have "ds_heap ?st' ! x = ?h ! x" by (simp add: nth_append)
      with mj x keep show ?thesis by simp
    qed
    from i1 i2 i3 i4 i5 have "depth_inv ls rs (Suc k) ?st'"
      unfolding depth_inv_def by blast
    with step show ?thesis by blast
  qed
qed

lemma depth_loop_append:
  "depth_loop (xs @ ys) st =
     (case depth_loop xs st of Inl e \<Rightarrow> Inl e | Inr st' \<Rightarrow> depth_loop ys st')"
  by (induction xs arbitrary: st) (auto split: sum.splits)

lemma depth_loop_prefix:
  assumes "numbered ls rs" and "k \<le> length ls" and "depth_inv ls rs 0 st0"
  shows "\<exists>st. depth_loop (take k (zip (map int [0..<length ls]) (zip ls rs))) st0 = Inr st
              \<and> depth_inv ls rs k st"
  using assms(2)
proof (induction k)
  case 0
  show ?case using assms(3) by simp
next
  case (Suc k)
  let ?nodes = "zip (map int [0..<length ls]) (zip ls rs)"
  from assms(1) have lr: "length rs = length ls" by (simp add: numbered_def)
  from Suc.prems have k: "k < length ls" by simp
  with Suc.IH obtain st where st: "depth_loop (take k ?nodes) st0 = Inr st"
    and inv: "depth_inv ls rs k st"
    by auto
  from depth_inv_step [OF assms(1) k inv] obtain st' where
    step: "depth_step (int k, ls ! k, rs ! k) st = Inr st'" and inv': "depth_inv ls rs (Suc k) st'"
    by blast
  have "take (Suc k) ?nodes = take k ?nodes @ [(int k, ls ! k, rs ! k)]"
    using k lr by (simp add: take_Suc_conv_app_nth del: take_zip)
  with st step inv' show ?case
    by (simp add: depth_loop_append del: take_zip)
qed

lemma find_depth_height:
  assumes "\<And>j. j < length ls \<Longrightarrow> \<exists>a. m (int j) = Some a
              \<and> node_left (h ! a) = child_ref m (ls ! j)
              \<and> node_right (h ! a) = child_ref m (rs ! j)"
    and "encodes ls rs t" and "height t < fuel"
  shows "\<exists>a. m (int (root_id t)) = Some a
           \<and> find_depth fuel h (Ref a) d = Inr (d + 1 + int (height t))"
  using assms(2,3)
proof (induction t arbitrary: fuel d)
  case (Leaf i)
  from Leaf.prems have i: "i < length ls" "ls ! i = -1" "rs ! i = -1" by simp_all
  from assms(1) [OF i(1)] i(2,3) obtain a where "m (int i) = Some a"
    "node_left (h ! a) = Minus1" "node_right (h ! a) = Minus1"
    by (auto simp add: child_ref_def)
  moreover from Leaf.prems obtain f where "fuel = Suc f" by (cases fuel) simp_all
  ultimately show ?case by simp
next
  case (Split i l r)
  from Split.prems have i: "i < length ls" "ls ! i = int (root_id l)" "rs ! i = int (root_id r)"
    and el: "encodes ls rs l" and er: "encodes ls rs r"
    by simp_all
  from Split.prems obtain f where f: "fuel = Suc f" "height l < f" "height r < f"
    by (cases fuel) auto
  from Split.IH(1) [OF el f(2), of "d + 1"] obtain al where
    al: "m (int (root_id l)) = Some al"
      "find_depth f h (Ref al) (d + 1) = Inr (d + 1 + 1 + int (height l))"
    by blast
  from Split.IH(2) [OF er f(3), of "d + 1"] obtain ar where
    ar: "m (int (root_id r)) = Some ar"
      "find_depth f h (Ref ar) (d + 1) = Inr (d + 1 + 1 + int (height r))"
    by blast
  from assms(1) [OF i(1)] i(2,3) al(1) ar(1) obtain a where a: "m (int i) = Some a"
    "node_left (h ! a) = Ref al" "node_right (h ! a) = Ref ar"
    by (auto simp add: child_ref_def)
  with al(2) ar(2) f(1) show ?case by simp
qed

lemma height_less_size: "height t < length (node_ids t)"
  by (induction t) auto

lemma tree_depth_height:
  assumes "wf_tree (lefts tree) (rights tree) t" and "parent_first t"
  shows "tree_depth tree = Inr (int (height t))"
proof -
  let ?ls = "lefts tree" and ?rs = "rights tree"
  note num = wf_numbered [OF assms]
  from assms(1) have e: "encodes ?ls ?rs t" and root: "root_id t = 0"
    and n: "length (node_ids t) = length ?ls"
    by (simp_all add: wf_tree_def)
  from depth_loop_prefix [OF num _ depth_inv_initial, of "length ?ls" ?ls ?rs] num obtain st where
    st: "depth_loop (zip (map int [0..<length ?ls]) (zip ?ls ?rs))
           \<lparr>ds_heap = [new_Node 0], ds_nodes_map = [0 \<mapsto> 0],
            ds_lefts = ?ls, ds_rights = ?rs, ds_current_node = 0\<rparr> = Inr st"
    and inv: "depth_inv ?ls ?rs (length ?ls) st"
    by (auto simp add: numbered_def)
  let ?m = "ds_nodes_map st" and ?h = "ds_heap st"
  from inv have bound: "\<And>i a. ?m i = Some a \<Longrightarrow> a < length ?h"
    and inj: "\<And>i j a. ?m i = Some a \<Longrightarrow> ?m j = Some a \<Longrightarrow> i = j"
    and proc: "\<And>j. j < length ?ls \<Longrightarrow> \<exists>a. ?m (int j) = Some a
                  \<and> node_left (?h ! a) = child_ref ?m (?ls ! j)
                  \<and> node_right (?h ! a) = child_ref ?m (?rs ! j)"
    unfolding depth_inv_def by blast+
  have "inj_on (\<lambda>j. the (?m (int j))) {0..<length ?ls}"
  proof (rule inj_onI)
    fix i j assume ij: "i \<in> {0..<length ?ls}" "j \<in> {0..<length ?ls}"
      and eq: "the (?m (int i)) = the (?m (int j))"
    from ij proc [of i] proc [of j] obtain a b where "?m (int i) = Some a" "?m (int j) = Some b"
      by auto
    with eq inj [of "int i" a "int j"] show "i = j" by simp
  qed
  moreover have "(\<lambda>j. the (?m (int j))) ` {0..<length ?ls} \<subseteq> {0..<length ?h}"
    using proc bound by fastforce
  ultimately have "card {0..<length ?ls} \<le> card {0..<length ?h}"
    by (intro card_inj_on_le) simp_all
  with height_less_size [of t] n have fuel: "height t < Suc (length ?h)" by simp
  from find_depth_height [of ?ls ?m ?h ?rs t "Suc (length ?h)" "-1", OF proc e fuel] root
  obtain a where "?m 0 = Some a"
    "find_depth (Suc (length ?h)) ?h (Ref a) (-1) = Inr (int (height t))"
    by auto
  with st show ?thesis by (simp add: tree_depth_def Let_def)
qed

text \<open>A balanced tree of height \<open>h\<close>: every leaf lies \<open>h\<close> splits below the root, so
  there are \<open>2 ^ h - 1\<close> splits. The maximum of the depths of an ensemble, over a start
  value.\<close>

fun complete :: "nat \<Rightarrow> tree_shape \<Rightarrow> bool" where
  "complete 0 (Leaf i) = True"
| "complete 0 (Split i l r) = False"
| "complete (Suc h) (Leaf i) = False"
| "complete (Suc h) (Split i l r) = (complete h l \<and> complete h r)"

fun n_splits :: "tree_shape \<Rightarrow> nat" where
  "n_splits (Leaf i) = 0"
| "n_splits (Split i l r) = Suc (n_splits l + n_splits r)"

definition max_depth_of :: "int \<Rightarrow> tree_shape list \<Rightarrow> int" where
  "max_depth_of d shapes = Max (insert d ((\<lambda>t. int (height t)) ` set shapes))"

lemma complete_height: "complete h t \<Longrightarrow> height t = h"
  by (induction h t rule: complete.induct) simp_all

lemma complete_splits: "complete h t \<Longrightarrow> Suc (n_splits t) = 2 ^ h"
  by (induction h t rule: complete.induct) simp_all

lemma max_depth_of_Nil: "max_depth_of d [] = d"
  by (simp add: max_depth_of_def)

lemma max_depth_of_Cons: "max_depth_of d (t # shapes) = max_depth_of (max d (int (height t))) shapes"
proof (cases "shapes = []")
  case True
  then show ?thesis by (simp add: max_depth_of_def max.commute)
next
  case False
  then show ?thesis by (simp add: max_depth_of_def max.assoc max.left_commute max.commute)
qed

lemma find_max_depth_from_heights:
  assumes "list_all2 (\<lambda>tree t. wf_tree (lefts tree) (rights tree) t \<and> parent_first t) trees shapes"
  shows "find_max_depth_from d trees = Inr (max_depth_of d shapes)"
  using assms
proof (induction trees shapes arbitrary: d rule: list_all2_induct)
  case Nil
  show ?case by (simp add: max_depth_of_Nil)
next
  case (Cons tree trees t shapes)
  from Cons.hyps(1) have "tree_depth tree = Inr (int (height t))"
    by (simp add: tree_depth_height)
  with Cons.IH show ?case by (simp add: max_depth_of_Cons)
qed

lemma max_depth_of_complete:
  assumes "shapes \<noteq> []" and "list_all (complete h) shapes"
  shows "max_depth_of 1 shapes = max 1 (int h)"
proof -
  from assms have "(\<lambda>t. int (height t)) ` set shapes = {int h}"
    by (cases shapes) (auto simp add: list_all_iff complete_height)
  then show ?thesis by (simp add: max_depth_of_def)
qed

lemma max_depth_of_leaves:
  assumes "list_all (\<lambda>t. height t = 0) shapes"
  shows "max_depth_of 1 shapes = 1"
proof (cases "shapes = []")
  case True
  then show ?thesis by (simp add: max_depth_of_def)
next
  case False
  with assms have "(\<lambda>t. int (height t)) ` set shapes = {0}"
    by (cases shapes) (auto simp add: list_all_iff)
  then show ?thesis by (simp add: max_depth_of_def)
qed

lemma max_depth_of_floor: "max 1 (max_depth_of 0 shapes) = max_depth_of 1 shapes"
proof (cases "shapes = []")
  case True
  then show ?thesis by (simp add: max_depth_of_def)
next
  case False
  then show ?thesis by (simp add: max_depth_of_def max.assoc [symmetric])
qed

text \<open>
  C5, as the code has it. For an ensemble of well-formed trees that are numbered parent
  first, \<open>_find_max_depth\<close> returns the maximum over the trees of the depth (0 for an
  empty ensemble), and \<open>get_tree_params_and_type\<close> reports that maximum floored at 1 and
  hands it to the selector. For balanced trees of height \<open>h > 0\<close>, which have
  \<open>2 ^ h - 1\<close> splits, the reported depth is \<open>h\<close>; for an ensemble of single leaves it
  is 1.
\<close>

theorem reported_depth:
  assumes "list_all2 (\<lambda>tree t. wf_tree (lefts tree) (rights tree) t \<and> parent_first t)
             (map get_tree_parameters tree_infos) shapes"
  shows "find_max_depth (map get_tree_parameters tree_infos) = Inr (max_depth_of 0 shapes)
       \<and> get_tree_params_and_type tree_infos get_tree_parameters extra_config
           = (case get_tree_implementation_by_config_or_depth extra_config
                     (Some (max_depth_of 1 shapes)) 3 10 of
                Inl e \<Rightarrow> Inl e
              | Inr tree_type \<Rightarrow>
                  Inr (map get_tree_parameters tree_infos, max_depth_of 1 shapes, tree_type))
       \<and> (\<forall>h. shapes \<noteq> [] \<and> list_all (complete h) shapes \<and> 0 < h \<longrightarrow>
              max_depth_of 1 shapes = int h
            \<and> list_all (\<lambda>t. Suc (n_splits t) = 2 ^ h) shapes)
       \<and> (list_all (\<lambda>t. n_splits t = 0) shapes \<longrightarrow> max_depth_of 1 shapes = 1)"
proof -
  have a: "find_max_depth (map get_tree_parameters tree_infos) = Inr (max_depth_of 0 shapes)"
    unfolding find_max_depth_def using assms by (rule find_max_depth_from_heights)
  then have b: "get_tree_params_and_type tree_infos get_tree_parameters extra_config
           = (case get_tree_implementation_by_config_or_depth extra_config
                     (Some (max_depth_of 1 shapes)) 3 10 of
                Inl e \<Rightarrow> Inl e
              | Inr tree_type \<Rightarrow>
                  Inr (map get_tree_parameters tree_infos, max_depth_of 1 shapes, tree_type))"
    by (simp add: get_tree_params_and_type_def Let_def max_depth_of_floor)
  have c: "max_depth_of 1 shapes = int h \<and> list_all (\<lambda>t. Suc (n_splits t) = 2 ^ h) shapes"
    if "shapes \<noteq> []" "list_all (complete h) shapes" "0 < h" for h
    using max_depth_of_complete [OF that(1,2)] that(2,3)
    by (auto simp add: list_all_iff complete_splits)
  have "height t = 0" if "n_splits t = 0" for t using that by (cases t) simp_all
  then have d: "list_all (\<lambda>t. n_splits t = 0) shapes \<longrightarrow> max_depth_of 1 shapes = 1"
    by (auto simp add: list_all_iff intro!: max_depth_of_leaves)
  from a b c d show ?thesis by blast
qed

theorem reported_depth_witness:
  "get_tree_params_and_type
     [\<lparr>lefts = [1, 2, -1, -1, 5, -1, -1], rights = [4, 3, -1, -1, 6, -1, -1],
       features = [0, 1, -2, -2, 1, -2, -2], thresholds = [5, 7, -2, -2, 9, -2, -2],
       leaf_values = [[0], [0], [1], [2], [0], [3], [4]]\<rparr>,
      \<lparr>lefts = [-1], rights = [-1], features = [-2], thresholds = [-2],
       leaf_values = [[7]]\<rparr>]
     (\<lambda>tree. tree) Map.empty
   = Inr ([\<lparr>lefts = [1, 2, -1, -1, 5, -1, -1], rights = [4, 3, -1, -1, 6, -1, -1],
            features = [0, 1, -2, -2, 1, -2, -2], thresholds = [5, 7, -2, -2, 9, -2, -2],
            leaf_values = [[0], [0], [1], [2], [0], [3], [4]]\<rparr>,
           \<lparr>lefts = [-1], rights = [-1], features = [-2], thresholds = [-2],
            leaf_values = [[7]]\<rparr>], 2, gemm)"
  using reported_depth
    [of "\<lambda>tree. tree"
      "[\<lparr>lefts = [1, 2, -1, -1, 5, -1, -1], rights = [4, 3, -1, -1, 6, -1, -1],
         features = [0, 1, -2, -2, 1, -2, -2], thresholds = [5, 7, -2, -2, 9, -2, -2],
         leaf_values = [[0], [0], [1], [2], [0], [3], [4]]\<rparr>,
        \<lparr>lefts = [-1], rights = [-1], features = [-2], thresholds = [-2],
         leaf_values = [[7]]\<rparr>]"
      "[Split 0 (Split 1 (Leaf 2) (Leaf 3)) (Split 4 (Leaf 5) (Leaf 6)), Leaf 0]"
      Map.empty]
  by (simp add: wf_tree_def max_depth_of_def get_tree_implementation_by_config_or_depth_def)

theorem child_before_parent_counterexample:
  "wf_tree [3, -1, -1, 1, -1] [4, -1, -1, 2, -1] (Split 0 (Split 3 (Leaf 1) (Leaf 2)) (Leaf 4))
   \<and> get_tree_params_and_type
       [\<lparr>lefts = [3, -1, -1, 1, -1], rights = [4, -1, -1, 2, -1],
         features = [0, -2, -2, 1, -2], thresholds = [5, -2, -2, 7, -2],
         leaf_values = [[0], [1], [2], [0], [3]]\<rparr>]
       (\<lambda>tree. tree) Map.empty
     = Inl (KeyError 1)"
  by (simp add: wf_tree_def get_tree_params_and_type_def find_max_depth_def tree_depth_def
      depth_step_def Let_def upt_rec)

section \<open>The two strategies on the same input\<close>

text \<open>The leaf of a shape that an input reaches (at a split the input goes left when
  its feature is at most the threshold), and whether the turns of a path are the ones
  the input takes.\<close>

fun reach :: "int list \<Rightarrow> real list \<Rightarrow> real list \<Rightarrow> tree_shape \<Rightarrow> nat" where
  "reach fs ts x (Leaf i) = i"
| "reach fs ts x (Split i l r) =
     (if x ! nat (fs ! i) \<le> ts ! i then reach fs ts x l else reach fs ts x r)"

fun agrees :: "int list \<Rightarrow> real list \<Rightarrow> real list \<Rightarrow> (nat \<times> bool) list \<Rightarrow> bool" where
  "agrees fs ts x [] = True"
| "agrees fs ts x (turn # p) =
     ((x ! nat (fs ! fst turn) \<le> ts ! fst turn) = snd turn \<and> agrees fs ts x p)"

text \<open>The invariant of the loop of \<open>get_parameters_for_tree_trav_common\<close> after \<open>k\<close>
  nodes: the root and the children of the nodes processed so far are keys of the node
  map, so that \<open>nodes_map[current_node]\<close> is found.\<close>

definition trav_inv :: "int list \<Rightarrow> int list \<Rightarrow> nat \<Rightarrow> trav_state \<Rightarrow> bool" where
  "trav_inv ls rs k st \<longleftrightarrow>
     ts_current_node st = int k
   \<and> (\<forall>j < length ls. j = 0 \<or> (\<exists>p < k. ls ! p = int j \<or> rs ! p = int j)
          \<longrightarrow> ts_nodes_map st (int j) \<noteq> None)"

lemma trav_step_leaf:
  assumes "ts_nodes_map st (ts_current_node st) = Some a"
  shows "\<exists>st'. trav_step (ident, -1, -1, rest) st = Inr st'
           \<and> ts_nodes_map st' = ts_nodes_map st
           \<and> ts_current_node st' = ts_current_node st + 1"
  using assms by (cases rest) (simp add: trav_step_def)

lemma trav_step_split:
  assumes "ts_nodes_map st (ts_current_node st) = Some a"
    and "l \<noteq> -1" and "r \<noteq> -1" and "l \<noteq> ts_current_node st" and "r \<noteq> ts_current_node st"
  shows "\<exists>st'. trav_step (ident, l, r, rest) st = Inr st'
           \<and> ts_nodes_map st' = (ts_nodes_map st)(l \<mapsto> length (ts_heap st),
                                                     r \<mapsto> Suc (length (ts_heap st)))
           \<and> ts_current_node st' = ts_current_node st + 1"
  using assms by (cases rest) (simp add: trav_step_def)

lemma trav_inv_step:
  assumes num: "numbered ls rs" and k: "k < length ls" and inv: "trav_inv ls rs k st"
  shows "\<exists>st'. trav_step (int k, ls ! k, rs ! k, rest) st = Inr st' \<and> trav_inv ls rs (Suc k) st'"
proof -
  let ?m = "ts_nodes_map st"
  from inv have cur: "ts_current_node st = int k"
    and reach: "\<And>j. j < length ls \<Longrightarrow> j = 0 \<or> (\<exists>p < k. ls ! p = int j \<or> rs ! p = int j)
                  \<Longrightarrow> ?m (int j) \<noteq> None"
    unfolding trav_inv_def by blast+
  from num have parent: "\<And>j. j < length ls \<Longrightarrow> 0 < j \<Longrightarrow> \<exists>p < j. ls ! p = int j \<or> rs ! p = int j"
    and shape: "\<And>j. j < length ls \<Longrightarrow> (ls ! j = -1 \<and> rs ! j = -1)
          \<or> (\<exists>a b. ls ! j = int a \<and> rs ! j = int b \<and> a \<noteq> b \<and> j < a \<and> j < b
                 \<and> a < length ls \<and> b < length ls)"
    unfolding numbered_def by blast+
  have "k = 0 \<or> (\<exists>p < k. ls ! p = int k \<or> rs ! p = int k)"
    using parent [OF k] by (cases "k = 0") simp_all
  from reach [OF k this] obtain ak where "?m (int k) = Some ak" by blast
  with cur have ak: "?m (ts_current_node st) = Some ak" by simp
  from shape [OF k] show ?thesis
  proof (elim disjE conjE exE)
    assume leaf: "ls ! k = -1" "rs ! k = -1"
    from trav_step_leaf [OF ak, of "int k" rest] obtain st' where
      step: "trav_step (int k, -1, -1, rest) st = Inr st'"
      and m': "ts_nodes_map st' = ?m" and cur': "ts_current_node st' = ts_current_node st + 1"
      by blast
    have "ts_nodes_map st' (int j) \<noteq> None"
      if "j < length ls" "j = 0 \<or> (\<exists>p < Suc k. ls ! p = int j \<or> rs ! p = int j)" for j
    proof -
      from that(2) leaf have "j = 0 \<or> (\<exists>p < k. ls ! p = int j \<or> rs ! p = int j)"
        by (auto simp add: less_Suc_eq)
      from reach [OF that(1) this] m' show ?thesis by simp
    qed
    with cur cur' have "trav_inv ls rs (Suc k) st'" unfolding trav_inv_def by simp
    with step leaf show ?thesis by auto
  next
    fix a b
    assume split: "ls ! k = int a" "rs ! k = int b" "a \<noteq> b" "k < a" "k < b"
      "a < length ls" "b < length ls"
    have "int a \<noteq> -1" "int b \<noteq> -1" "int a \<noteq> ts_current_node st" "int b \<noteq> ts_current_node st"
      using cur split(4,5) by simp_all
    from trav_step_split [OF ak this, of "int k" rest] obtain st' where
      step: "trav_step (int k, int a, int b, rest) st = Inr st'"
      and m': "ts_nodes_map st' = ?m(int a \<mapsto> length (ts_heap st),
                                     int b \<mapsto> Suc (length (ts_heap st)))"
      and cur': "ts_current_node st' = ts_current_node st + 1"
      by blast
    have "ts_nodes_map st' (int j) \<noteq> None"
      if "j < length ls" "j = 0 \<or> (\<exists>p < Suc k. ls ! p = int j \<or> rs ! p = int j)" for j
    proof (cases "j = a \<or> j = b")
      case True
      with m' show ?thesis by auto
    next
      case False
      with that(2) split(1,2) have "j = 0 \<or> (\<exists>p < k. ls ! p = int j \<or> rs ! p = int j)"
        by (auto simp add: less_Suc_eq)
      from reach [OF that(1) this] False m' show ?thesis by simp
    qed
    with cur cur' have "trav_inv ls rs (Suc k) st'" unfolding trav_inv_def by simp
    with step split(1,2) show ?thesis by auto
  qed
qed

lemma trav_loop_prefix:
  assumes "numbered ls rs" and "k \<le> length ls" and "trav_inv ls rs 0 st0"
    and "length rest = length ls"
  shows "\<exists>st. trav_loop (take k (zip (map int [0..<length ls]) (zip ls (zip rs rest)))) st0 = Inr st
              \<and> trav_inv ls rs k st"
  using assms(2)
proof (induction k)
  case 0
  show ?case using assms(3) by simp
next
  case (Suc k)
  let ?nodes = "zip (map int [0..<length ls]) (zip ls (zip rs rest))"
  from assms(1) have lr: "length rs = length ls" by (simp add: numbered_def)
  from Suc.prems have k: "k < length ls" by simp
  with Suc.IH obtain st where st: "trav_loop (take k ?nodes) st0 = Inr st"
    and inv: "trav_inv ls rs k st"
    by auto
  from trav_inv_step [OF assms(1) k inv, of "rest ! k"] obtain st' where
    step: "trav_step (int k, ls ! k, rs ! k, rest ! k) st = Inr st'"
    and inv': "trav_inv ls rs (Suc k) st'"
    by blast
  have "take (Suc k) ?nodes = take k ?nodes @ [(int k, ls ! k, rs ! k, rest ! k)]"
    using k lr assms(4) by (simp add: take_Suc_conv_app_nth del: take_zip)
  with st step inv' show ?case
    by (simp add: trav_loop_append del: take_zip)
qed

lemma trav_inv_initial:
  "trav_inv ls rs 0 \<lparr>ts_heap = [new_Node 0], ts_nodes_map = [0 \<mapsto> 0],
                       ts_lefts = ls', ts_rights = rs', ts_current_node = 0\<rparr>"
  by (auto simp add: trav_inv_def)

lemma tree_trav_common_body_returns:
  assumes "wf_tree ls rs t" and "parent_first t"
    and "length fs = length ls" and "length ts = length ls" and "length vs = length ls"
  shows "\<exists>r. tree_trav_common_body ls rs fs ts vs = Inr r
           \<and> tr_lefts r = self_ref ls \<and> tr_rights r = self_ref rs \<and> tr_features r = fs
           \<and> tr_thresholds r = ts \<and> tr_values r = vs"
proof -
  note num = wf_numbered [OF assms(1,2)]
  then have lr: "length rs = length ls" by (simp add: numbered_def)
  have "length (zip fs (zip ts vs)) = length ls" using assms(3-5) by simp
  from trav_loop_prefix [OF num _ trav_inv_initial this, of "length ls" ls rs] lr assms(3-5)
  obtain st where "trav_loop (zip (map int [0..<length ls]) (zip ls (zip rs (zip fs (zip ts vs)))))
         \<lparr>ts_heap = [new_Node 0], ts_nodes_map = [0 \<mapsto> 0],
          ts_lefts = ls, ts_rights = rs, ts_current_node = 0\<rparr> = Inr st"
    by auto
  then obtain r where r: "tree_trav_common_body ls rs fs ts vs = Inr r"
    by (simp add: tree_trav_common_body_def Let_def)
  from tree_trav_common_body_arrays [OF r lr assms(3-5)] r show ?thesis by blast
qed

lemma self_ref_nth: "i < length xs \<Longrightarrow> self_ref xs ! i = (if xs ! i = -1 then int i else xs ! i)"
  by (simp add: self_ref_def)

lemma self_ref_length [simp]: "length (self_ref xs) = length xs"
  by (simp add: self_ref_def)

lemma trav_eval_reach:
  assumes "tr_lefts r = self_ref ls" and "tr_rights r = self_ref rs" and "tr_features r = fs"
    and "tr_thresholds r = ts" and "tr_values r = vs"
    and "length rs = length ls" and "length fs = length ls" and "length ts = length ls"
    and "length vs = length ls"
    and "\<forall>s < length ls. ls ! s \<noteq> -1 \<longrightarrow> 0 \<le> fs ! s \<and> fs ! s < int (length x)"
    and "encodes ls rs t" and "parent_first t" and "height t < fuel"
  shows "trav_eval fuel r x (int (root_id t)) = Some (vs ! reach fs ts x t)"
  using assms(11-13)
proof (induction t arbitrary: fuel)
  case (Leaf i)
  from Leaf.prems obtain f where f: "fuel = Suc f" by (cases fuel) simp_all
  from Leaf.prems have i: "i < length ls" "ls ! i = -1" "rs ! i = -1" by simp_all
  with assms(1-9) show ?case by (simp add: f self_ref_nth)
next
  case (Split i l r')
  from Split.prems obtain f where f: "fuel = Suc f" "height l < f" "height r' < f"
    by (cases fuel) auto
  from Split.prems have i: "i < length ls" "ls ! i = int (root_id l)" "rs ! i = int (root_id r')"
    and el: "encodes ls rs l" and er: "encodes ls rs r'"
    and pl: "parent_first l" and pr: "parent_first r'" and lt: "i < root_id l" "i < root_id r'"
    by simp_all
  from i lt have nl: "ls ! i \<noteq> -1" "self_ref ls ! i = int (root_id l)"
    "self_ref rs ! i = int (root_id r')"
    using assms(6) by (simp_all add: self_ref_nth)
  from assms(10) i(1) nl(1) have fr: "0 \<le> fs ! i" "fs ! i < int (length x)" by auto
  have "trav_eval fuel r x (int i)
          = trav_eval f r x (if x ! nat (fs ! i) \<le> ts ! i then int (root_id l) else int (root_id r'))"
    unfolding f(1) using assms(1-9) i(1) nl lt fr by simp
  also have "\<dots> = Some (vs ! reach fs ts x (Split i l r'))"
    using Split.IH(1) [OF el pl f(2)] Split.IH(2) [OF er pr f(3)] by simp
  finally show ?case by simp
qed

lemma map2_same: "map2 f (map g xs) (map h xs) = map (\<lambda>x. f (g x) (h x)) xs"
  by (induction xs) simp_all

lemma dot_one_hot:
  assumes "0 \<le> f" and "f < n" and "length x = nat n"
  shows "dot x (one_hot n f) = x ! nat f"
proof -
  have "map2 (*) x (map (\<lambda>i. if int i = f then 1 else 0) [0..<length x])
          = map (\<lambda>i. if i = nat f then x ! i else 0) [0..<length x]"
    using assms(1) by (auto intro!: nth_equalityI)
  moreover have "sum_list (map (\<lambda>i. if i = nat f then x ! i else 0) [0..<length x]) = x ! nat f"
    using assms by (simp add: sum_list_sum_nth sum.delta')
  ultimately show ?thesis using assms(3) by (simp add: dot_def one_hot_def)
qed

text \<open>The output of the split layer after thresholding: 1 for a split that sends the
  input to the left, 0 otherwise, one entry per split in array order.\<close>

definition decisions :: "int list \<Rightarrow> int list \<Rightarrow> real list \<Rightarrow> real list \<Rightarrow> real list" where
  "decisions ls fs ts x = map (\<lambda>s. if x ! nat (fs ! s) \<le> ts ! s then 1 else 0) (split_ids ls)"

lemma split_layer_decisions:
  assumes "length fs = length ls" and "length ts = length ls"
    and "\<forall>s < length ls. ls ! s \<noteq> -1 \<longrightarrow> 0 \<le> fs ! s \<and> fs ! s < n_features"
    and "length x = nat n_features"
  shows "map (\<lambda>z. if z \<le> 0 then 1 else 0)
           (affine (fst (split_layer ls fs ts n_features)) (snd (split_layer ls fs ts n_features)) x)
         = decisions ls fs ts x"
proof -
  have "(if dot x (one_hot n_features (fs ! s)) - ts ! s \<le> 0 then 1 else (0::real))
          = (if x ! nat (fs ! s) \<le> ts ! s then 1 else 0)" if "s \<in> set (split_ids ls)" for s
  proof -
    from that assms(3) have "0 \<le> fs ! s" "fs ! s < n_features" by (auto simp add: split_ids_member)
    from dot_one_hot [OF this assms(4)] show ?thesis by simp
  qed
  then show ?thesis
    by (simp add: split_layer_split_ids [OF assms(1,2)] affine_def map2_same decisions_def)
qed

lemma agrees_iff:
  "agrees fs ts x p \<longleftrightarrow> (\<forall>(s, b) \<in> set p. (x ! nat (fs ! s) \<le> ts ! s) = b)"
  by (induction p) auto

lemma sum_list_nonpos_zero:
  fixes f :: "'a \<Rightarrow> real"
  assumes "\<forall>s \<in> set xs. f s \<le> 0"
  shows "0 \<le> sum_list (map f xs) \<longleftrightarrow> (\<forall>s \<in> set xs. f s = 0)"
  using assms
proof (induction xs)
  case Nil
  show ?case by simp
next
  case (Cons a xs)
  then have a: "f a \<le> 0" and rest: "\<forall>s \<in> set xs. f s \<le> 0" by simp_all
  from rest have "sum_list (map f xs) \<le> 0" by (induction xs) auto
  with a Cons.IH [OF rest] show ?case by auto
qed

lemma count_as_sum:
  "real (length (filter P xs)) = sum_list (map (\<lambda>s. if P s then 1 else 0) xs)"
  by (induction xs) simp_all

lemma path_row_active:
  assumes "distinct (map fst p)" and "\<forall>s \<in> fst ` set p. s < length ls \<and> ls ! s \<noteq> -1"
  shows "0 \<le> dot (decisions ls fs ts x) (map real_of_int (expected_row ls p))
               - real_of_int (int (length (filter snd p)))
         \<longleftrightarrow> agrees fs ts x p"
proof -
  let ?d = "\<lambda>s. if x ! nat (fs ! s) \<le> ts ! s then 1 else (0::real)"
  let ?e = "\<lambda>s. if (s, True) \<in> set p then 1 else if (s, False) \<in> set p then -1 else (0::real)"
  let ?c = "\<lambda>s. ?d s * ?e s - (if (s, True) \<in> set p then 1 else 0)"
  have bias: "real_of_int (int (length (filter snd p)))
               = sum_list (map (\<lambda>s. if (s, True) \<in> set p then 1 else 0) (split_ids ls))"
  proof -
    have "int (length (filter snd p)) = int (count_list (expected_row ls p) 1)"
      using expected_row_positive_count [OF assms] by simp
    also have "\<dots> = int (length (filter (\<lambda>s. (s, True) \<in> set p) (split_ids ls)))"
      unfolding expected_row_def by (simp add: count_positive_entries)
    finally show ?thesis by (simp add: count_as_sum)
  qed
  have row: "map real_of_int (expected_row ls p) = map ?e (split_ids ls)"
    by (simp add: expected_row_def)
  have "dot (decisions ls fs ts x) (map real_of_int (expected_row ls p))
          = sum_list (map (\<lambda>s. ?d s * ?e s) (split_ids ls))"
    unfolding row decisions_def dot_def map2_same ..
  then have "dot (decisions ls fs ts x) (map real_of_int (expected_row ls p))
               - real_of_int (int (length (filter snd p)))
             = sum_list (map ?c (split_ids ls))"
    unfolding bias by (simp add: sum_list_subtractf)
  moreover have "\<forall>s \<in> set (split_ids ls). ?c s \<le> 0" by simp
  ultimately have "0 \<le> dot (decisions ls fs ts x) (map real_of_int (expected_row ls p))
               - real_of_int (int (length (filter snd p)))
         \<longleftrightarrow> (\<forall>s \<in> set (split_ids ls). ?c s = 0)"
    using sum_list_nonpos_zero [of "split_ids ls" ?c] by simp
  also have "\<dots> \<longleftrightarrow> agrees fs ts x p"
  proof
    assume zero: "\<forall>s \<in> set (split_ids ls). ?c s = 0"
    show "agrees fs ts x p"
      unfolding agrees_iff
    proof (clarify)
      fix s b assume sb: "(s, b) \<in> set p"
      with assms(2) have "s \<in> set (split_ids ls)" by (force simp add: split_ids_member)
      with zero have c: "?c s = 0" by blast
      show "(x ! nat (fs ! s) \<le> ts ! s) = b"
      proof (cases b)
        case True
        with sb c show ?thesis by (auto split: if_splits)
      next
        case False
        have "(s, True) \<notin> set p"
        proof
          assume "(s, True) \<in> set p"
          from eq_key_imp_eq_value [OF assms(1) this, of b] sb False show False by simp
        qed
        with sb False c show ?thesis by (auto split: if_splits)
      qed
    qed
  next
    assume ag: "agrees fs ts x p"
    show "\<forall>s \<in> set (split_ids ls). ?c s = 0"
    proof
      fix s assume "s \<in> set (split_ids ls)"
      show "?c s = 0"
      proof (cases "(s, True) \<in> set p")
        case True
        with ag have "x ! nat (fs ! s) \<le> ts ! s" unfolding agrees_iff by auto
        with True show ?thesis by simp
      next
        case False
        show ?thesis
        proof (cases "(s, False) \<in> set p")
          case True
          with ag have "\<not> x ! nat (fs ! s) \<le> ts ! s" unfolding agrees_iff by auto
          with False show ?thesis by simp
        next
          case no: False
          with False show ?thesis by simp
        qed
      qed
    qed
  qed
  finally show ?thesis .
qed

lemma sum_reached:
  fixes F :: "nat \<Rightarrow> real"
  shows "sum_list (map (\<lambda>(p, leaf). (if agrees fs ts x p then 1 else 0) * F leaf) (leaf_paths t))
           = F (reach fs ts x t)"
proof (induction t)
  case (Leaf i)
  show ?case by simp
next
  case (Split i l r)
  show ?case
  proof (cases "x ! nat (fs ! i) \<le> ts ! i")
    case True
    then show ?thesis using Split.IH(1)
      by (simp add: comp_def case_prod_unfold)
  next
    case False
    then show ?thesis using Split.IH(2)
      by (simp add: comp_def case_prod_unfold)
  qed
qed

lemma reach_leaf_path: "\<exists>p. (p, reach fs ts x t) \<in> set (leaf_paths t)"
  by (induction t) auto

lemma map_nth_fun: "map (\<lambda>j. f (xs ! j)) [0..<length xs] = map f xs"
  by (rule nth_equalityI) simp_all

lemma transpose_columns:
  assumes "cols \<noteq> []" and "\<forall>c \<in> set cols. length c = k"
  shows "transpose cols = map (\<lambda>i. map (\<lambda>c. c ! i) cols) [0..<k]"
proof -
  have "transpose cols = map (\<lambda>i. map (\<lambda>j. cols ! j ! i) [0..<length cols]) [0..<k]"
    using assms by (intro transpose_rectangle) simp_all
  moreover have "map (\<lambda>j. cols ! j ! i) [0..<length cols] = map (\<lambda>c. c ! i) cols" for i
    by (rule nth_equalityI) simp_all
  ultimately show ?thesis by simp
qed

lemma path_layer_active:
  assumes "encodes ls rs t" and "distinct (node_ids t)"
  shows "map (\<lambda>z. if 0 \<le> z then 1 else 0)
           (affine (map (map real_of_int) (path_rows ls t)) (map real_of_int (path_biases t))
              (decisions ls fs ts x))
         = map (\<lambda>(p, leaf). if agrees fs ts x p then 1 else (0::real)) (leaf_paths t)"
proof -
  have rows: "map (map real_of_int) (path_rows ls t)
                = map (\<lambda>e. map real_of_int (expected_row ls (fst e))) (leaf_paths t)"
    by (simp add: path_rows_expected [OF assms] case_prod_unfold comp_def)
  have biases: "map real_of_int (path_biases t)
                  = map (\<lambda>e. real_of_int (int (length (filter snd (fst e))))) (leaf_paths t)"
    by (simp add: path_biases_def case_prod_unfold comp_def)
  have "(if 0 \<le> dot (decisions ls fs ts x) (map real_of_int (expected_row ls (fst e)))
                  - real_of_int (int (length (filter snd (fst e)))) then 1 else (0::real))
          = (if agrees fs ts x (fst e) then 1 else 0)" if "e \<in> set (leaf_paths t)" for e
  proof -
    from that have "(fst e, snd e) \<in> set (leaf_paths t)" by simp
    from leaf_paths_facts [OF assms this]
    have "distinct (map fst (fst e))"
      "\<forall>s \<in> fst ` set (fst e). s < length ls \<and> ls ! s \<noteq> -1"
      by blast+
    from path_row_active [OF this, of fs ts x] show ?thesis by simp
  qed
  then show ?thesis
    unfolding rows biases affine_def map2_same
    by (simp add: case_prod_unfold)
qed

lemma class_layer_select:
  assumes "\<forall>(p, leaf) \<in> set (leaf_paths t). length (col leaf) = k"
  shows "map (dot (map (\<lambda>(p, leaf). if agrees fs ts x p then 1 else (0::real)) (leaf_paths t)))
           (transpose (map (\<lambda>(p, leaf). col leaf) (leaf_paths t)))
         = col (reach fs ts x t)"
proof -
  let ?L = "leaf_paths t"
  let ?C = "map (\<lambda>(p, leaf). col leaf) ?L"
  let ?a = "map (\<lambda>(p, leaf). if agrees fs ts x p then 1 else (0::real)) ?L"
  have ne: "?C \<noteq> []" by (simp add: leaf_paths_nonempty)
  have rect: "\<forall>c \<in> set ?C. length c = k" using assms by auto
  have row: "dot ?a (map (\<lambda>c. c ! i) ?C) = col (reach fs ts x t) ! i" for i
  proof -
    have "map2 (*) ?a (map (\<lambda>c. c ! i) ?C)
            = map2 (*) (map (\<lambda>e. if agrees fs ts x (fst e) then 1 else 0) ?L)
                (map (\<lambda>e. col (snd e) ! i) ?L)"
      by (simp add: case_prod_unfold comp_def)
    also have "\<dots> = map (\<lambda>e. (if agrees fs ts x (fst e) then 1 else 0) * (col (snd e) ! i)) ?L"
      by (rule map2_same)
    also have "\<dots> = map (\<lambda>(p, leaf). (if agrees fs ts x p then 1 else 0) * (col leaf ! i)) ?L"
      by (simp add: case_prod_unfold)
    finally have "map2 (*) ?a (map (\<lambda>c. c ! i) ?C)
            = map (\<lambda>(p, leaf). (if agrees fs ts x p then 1 else 0) * (col leaf ! i)) ?L" .
    then show ?thesis
      unfolding dot_def using sum_reached [of fs ts x "\<lambda>leaf. col leaf ! i" t] by simp
  qed
  from reach_leaf_path [of fs ts x t] assms have len: "length (col (reach fs ts x t)) = k"
    by auto
  have "map (dot ?a) (transpose ?C) = map (\<lambda>i. dot ?a (map (\<lambda>c. c ! i) ?C)) [0..<k]"
    unfolding transpose_columns [OF ne rect] map_map comp_def ..
  also have "\<dots> = map (\<lambda>i. col (reach fs ts x t) ! i) [0..<k]"
    by (simp only: row)
  also have "\<dots> = col (reach fs ts x t)"
    using len by (auto intro: nth_equalityI)
  finally show ?thesis .
qed

lemma gemm_body_predict:
  assumes "wf_tree ls rs t" and "length fs = length ls" and "length ts = length ls"
    and "length vs = length ls"
    and "\<forall>s < length ls. ls ! s \<noteq> -1 \<longrightarrow> 0 \<le> fs ! s \<and> fs ! s < n_features"
    and "length x = nat n_features"
    and "\<forall>(p, leaf) \<in> set (leaf_paths t).
           class_column vs (vs ! leaf) = Some (col leaf) \<and> length (col leaf) = k"
  shows "\<exists>w1 b1 w2 b2 w3.
           gemm_common_body ls rs fs ts vs n_features
             = Inr ([Weight w1, Weight w2, Weight w3], [Some b1, Some b2, None])
         \<and> gemm_predict w1 b1 w2 b2 w3 x = col (reach fs ts x t)"
proof -
  from assms(1) have e: "encodes ls rs t" and d: "distinct (node_ids t)"
    by (simp_all add: wf_tree_def)
  let ?w1 = "fst (split_layer ls fs ts n_features)" and ?b1 = "snd (split_layer ls fs ts n_features)"
  let ?w2 = "map (map real_of_int) (path_rows ls t)" and ?b2 = "map real_of_int (path_biases t)"
  let ?C = "map (\<lambda>(p, leaf). col leaf) (leaf_paths t)"
  have cols: "class_columns vs t = map (\<lambda>(p, leaf). Some (col leaf)) (leaf_paths t)"
    unfolding class_columns_def using assms(7) by (intro map_cong refl) auto
  have layer: "class_layer (class_columns vs t) = Weight (transpose ?C)"
    unfolding cols by (simp add: class_layer_def list_all_iff case_prod_unfold comp_def)
  have body: "gemm_common_body ls rs fs ts vs n_features
                = Inr ([Weight ?w1, Weight ?w2, Weight (transpose ?C)], [Some ?b1, Some ?b2, None])"
    using gemm_common_body_wf [OF assms(1-4), of n_features] layer by simp
  have cl: "\<forall>(p, leaf) \<in> set (leaf_paths t). length (col leaf) = k" using assms(7) by auto
  have "gemm_predict ?w1 ?b1 ?w2 ?b2 (transpose ?C) x = col (reach fs ts x t)"
    unfolding gemm_predict_def Let_def
      split_layer_decisions [OF assms(2,3,5,6)] path_layer_active [OF e d]
    by (rule class_layer_select [OF cl])
  with body show ?thesis by blast
qed

lemma normalized_length [simp]: "length (normalized v) = length v"
  by (simp add: normalized_def)

lemma normalized_order:
  assumes "0 < sum_list v" and "i < length v" and "j < length v"
  shows "(normalized v ! i \<le> normalized v ! j) = (v ! i \<le> v ! j)"
  using assms by (simp add: normalized_def divide_le_cancel)

lemma reach_is_leaf:
  assumes "encodes ls rs t" and "distinct (node_ids t)"
  shows "reach fs ts x t < length ls \<and> ls ! reach fs ts x t = -1"
proof -
  from reach_leaf_path [of fs ts x t] obtain p where "(p, reach fs ts x t) \<in> set (leaf_paths t)"
    by blast
  from leaf_paths_facts [OF assms this] encodes_ids_bound [OF assms(1)] show ?thesis by blast
qed

lemma strategies_agree_body:
  assumes "wf_tree ls rs t" and "parent_first t"
    and "length fs = length ls" and "length ts = length ls" and "length vs = length ls"
    and "list_all (\<lambda>v. length v = k) vs"
    and "\<forall>s < length ls. ls ! s \<noteq> -1 \<longrightarrow> 0 \<le> fs ! s \<and> fs ! s < n_features"
    and "length x = nat n_features" and "x \<noteq> []"
    and "1 < k \<longrightarrow> (\<forall>i < length ls. ls ! i = -1 \<longrightarrow> sum_list (vs ! i) \<noteq> 0)"
  shows "\<exists>r v w1 b1 w2 b2 w3.
           tree_trav_common_body ls rs fs ts vs = Inr r
         \<and> tree_trav_predict r x = Some v \<and> length v = k
         \<and> gemm_common_body ls rs fs ts vs n_features
             = Inr ([Weight w1, Weight w2, Weight w3], [Some b1, Some b2, None])
         \<and> gemm_predict w1 b1 w2 b2 w3 x = (if 1 < k then normalized v else v)"
proof -
  from assms(1) have lr: "length rs = length ls" and e: "encodes ls rs t"
    and root: "root_id t = 0" and d: "distinct (node_ids t)"
    and n: "length (node_ids t) = length ls"
    by (simp_all add: wf_tree_def)
  let ?R = "reach fs ts x t"
  let ?col = "\<lambda>leaf. if 1 < k then normalized (vs ! leaf) else vs ! leaf"
  from assms(8,9) have nx: "int (length x) = n_features" by (cases x) auto
  from tree_trav_common_body_returns [OF assms(1-5)] obtain r where
    r: "tree_trav_common_body ls rs fs ts vs = Inr r"
    and arrays: "tr_lefts r = self_ref ls" "tr_rights r = self_ref rs" "tr_features r = fs"
      "tr_thresholds r = ts" "tr_values r = vs"
    by blast
  have fuel: "height t < length ls" using height_less_size [of t] n by simp
  have range: "\<forall>s < length ls. ls ! s \<noteq> -1 \<longrightarrow> 0 \<le> fs ! s \<and> fs ! s < int (length x)"
    using assms(7) nx by simp
  from trav_eval_reach [OF arrays lr assms(3-5) range e assms(2) fuel] root arrays(1)
  have walk: "tree_trav_predict r x = Some (vs ! ?R)"
    by (simp add: tree_trav_predict_def)
  have leaf: "class_column vs (vs ! leaf) = Some (?col leaf) \<and> length (?col leaf) = k"
    if "(p, leaf) \<in> set (leaf_paths t)" for p leaf
  proof -
    from leaf_paths_facts [OF e d that] encodes_ids_bound [OF e]
    have l: "leaf < length ls" "ls ! leaf = -1" by blast+
    with assms(5) have mem: "vs ! leaf \<in> set vs" by simp
    with assms(6) have len: "length (vs ! leaf) = k" by (simp add: list_all_iff)
    from assms(10) l have "1 < k \<longrightarrow> sum_list (vs ! leaf) \<noteq> 0" by blast
    with len have "expected_column (vs ! leaf) = Some (?col leaf)"
      by (simp add: expected_column_def)
    with class_column_rectangular [OF assms(6) mem] len show ?thesis by simp
  qed
  then have cols: "\<forall>(p, leaf) \<in> set (leaf_paths t).
           class_column vs (vs ! leaf) = Some (?col leaf) \<and> length (?col leaf) = k"
    by blast
  from gemm_body_predict [OF assms(1,3,4,5,7,8) cols] obtain w1 b1 w2 b2 w3 where
    g: "gemm_common_body ls rs fs ts vs n_features
          = Inr ([Weight w1, Weight w2, Weight w3], [Some b1, Some b2, None])"
      "gemm_predict w1 b1 w2 b2 w3 x = ?col ?R"
    by blast
  from reach_is_leaf [OF e d, of fs ts x] assms(5,6) have "length (vs ! ?R) = k"
    by (simp add: list_all_iff)
  with r walk g show ?thesis by auto
qed

text \<open>
  C1, as the code has it. Take a well-formed tree that is numbered parent first, with
  value vectors of \<open>k\<close> entries each and split features below \<open>n_features\<close>, and an
  input of \<open>n_features\<close> entries (at least one). Then both functions return; stepping
  through the traversal arrays yields a value vector \<open>v\<close> of \<open>k\<close> entries, and
  evaluating the three GEMM layers yields \<open>v\<close> itself for \<open>k \<le> 1\<close> and \<open>v\<close> divided by its
  sum for \<open>k > 1\<close>, provided no leaf vector sums to zero then. Dividing by a positive
  sum keeps the order of the entries, hence the predicted class.
\<close>

theorem strategy_equivalence:
  assumes "wf_tree ls rs t" and "parent_first t"
    and "length fs = length ls" and "length ts = length ls" and "length vs = length ls"
    and "list_all (\<lambda>v. length v = k) vs"
    and "\<forall>s < length ls. ls ! s \<noteq> -1 \<longrightarrow> 0 \<le> fs ! s \<and> fs ! s < n_features"
    and "length x = nat n_features" and "x \<noteq> []"
    and "1 < k \<longrightarrow> (\<forall>i < length ls. ls ! i = -1 \<longrightarrow> sum_list (vs ! i) \<noteq> 0)"
  shows "\<exists>r v w1 b1 w2 b2 w3.
           get_parameters_for_tree_trav_common ls rs fs ts vs = Inr r
         \<and> tree_trav_predict r x = Some v \<and> length v = k
         \<and> get_parameters_for_gemm_common ls rs fs ts vs n_features
             = Inr ([Weight w1, Weight w2, Weight w3], [Some b1, Some b2, None])
         \<and> gemm_predict w1 b1 w2 b2 w3 x = (if 1 < k then normalized v else v)
         \<and> (0 < sum_list v \<longrightarrow>
              (\<forall>i < k. \<forall>j < k. (normalized v ! i \<le> normalized v ! j) = (v ! i \<le> v ! j)))"
proof (cases "length ls = 1")
  case False
  from strategies_agree_body [OF assms] obtain r v w1 b1 w2 b2 w3 where
    b: "tree_trav_common_body ls rs fs ts vs = Inr r"
      "tree_trav_predict r x = Some v" "length v = k"
      "gemm_common_body ls rs fs ts vs n_features
         = Inr ([Weight w1, Weight w2, Weight w3], [Some b1, Some b2, None])"
      "gemm_predict w1 b1 w2 b2 w3 x = (if 1 < k then normalized v else v)"
    by blast
  from b(3) have "0 < sum_list v \<longrightarrow>
      (\<forall>i < k. \<forall>j < k. (normalized v ! i \<le> normalized v ! j) = (v ! i \<le> v ! j))"
    by (simp add: normalized_order)
  with b False show ?thesis
    by (auto simp add: get_parameters_for_tree_trav_common_def get_parameters_for_gemm_common_def)
next
  case True
  with wf_tree_single [OF assms(1)] obtain i where t: "t = Leaf i" by blast
  with assms(1) have leaf0: "ls ! 0 = -1" by (auto simp add: wf_tree_def)
  from True assms(5) obtain v where vs: "vs = [v]" by (cases vs) simp_all
  with assms(6) have len: "length v = k" by simp
  let ?c = "if 1 < k then normalized v else v"
  obtain r where r: "tree_trav_common_body [1, -1, -1] [2, -1, -1] [0, 0, 0] [0, 0, 0] [[0], v, v] = Inr r"
    and arrays: "tr_lefts r = [1, 1, 2]" "tr_rights r = [2, 1, 2]" "tr_features r = [0, 0, 0]"
      "tr_thresholds r = [0, 0, 0]" "tr_values r = [[0], v, v]"
    using single_leaf_trav_body by blast
  have run: "get_parameters_for_tree_trav_common ls rs fs ts vs = Inr r"
    using True vs r by (simp add: get_parameters_for_tree_trav_common_def)
  have walk: "tree_trav_predict r x = Some v"
    using arrays assms(9) by (rule single_leaf_trav_eval)
  from assms(10) True leaf0 vs have "1 < k \<longrightarrow> sum_list v \<noteq> 0" by simp
  with len have col: "expected_column v = Some ?c" by (simp add: expected_column_def)
  have layers: "get_parameters_for_gemm_common ls rs fs ts vs n_features
      = Inr ([Weight [map (\<lambda>i. if int i = 0 then 1 else 0) [0..<nat n_features]],
              Weight [[1], [-1]], Weight (transpose [?c, ?c])],
             [Some [0], Some [1, 0], None])"
    using True vs col
    by (simp add: get_parameters_for_gemm_common_def single_leaf_gemm_layers single_leaf_layers_def)
  have eval: "gemm_predict [map (\<lambda>i. if int i = 0 then 1 else 0) [0..<nat n_features]] [0]
                [[1], [-1]] [1, 0] (transpose [?c, ?c]) x = ?c"
    by (rule single_leaf_gemm_eval)
  from len have "0 < sum_list v \<longrightarrow>
      (\<forall>i < k. \<forall>j < k. (normalized v ! i \<le> normalized v ! j) = (v ! i \<le> v ! j))"
    by (simp add: normalized_order)
  with run walk len layers eval show ?thesis by blast
qed

theorem strategy_equivalence_witness:
  "wf_tree [1, -1, -1] [2, -1, -1] (Split 0 (Leaf 1) (Leaf 2))
   \<and> parent_first (Split 0 (Leaf 1) (Leaf 2))
   \<and> (\<exists>r w1 b1 w2 b2 w3.
         get_parameters_for_tree_trav_common [1, -1, -1] [2, -1, -1] [0, -2, -2] [1 / 2, -2, -2]
             [[1, 1], [1, 3], [2, 2]] = Inr r
       \<and> tree_trav_predict r [1 / 5, 7] = Some [1, 3]
       \<and> get_parameters_for_gemm_common [1, -1, -1] [2, -1, -1] [0, -2, -2] [1 / 2, -2, -2]
             [[1, 1], [1, 3], [2, 2]] 2
           = Inr ([Weight w1, Weight w2, Weight w3], [Some b1, Some b2, None])
       \<and> gemm_predict w1 b1 w2 b2 w3 [1 / 5, 7] = [1 / 4, 3 / 4])"
proof -
  have wf: "wf_tree [1, -1, -1] [2, -1, -1] (Split 0 (Leaf 1) (Leaf 2))"
    by (simp add: wf_tree_def)
  have pf: "parent_first (Split 0 (Leaf 1) (Leaf 2))" by simp
  have range: "\<forall>s < length [1, -1, -1 :: int].
      [1, -1, -1 :: int] ! s \<noteq> -1 \<longrightarrow> 0 \<le> [0, -2, -2 :: int] ! s \<and> [0, -2, -2 :: int] ! s < 2"
    by (simp add: nth_Cons split: nat.splits)
  have sums: "1 < (2::nat) \<longrightarrow> (\<forall>i < length [1, -1, -1 :: int].
      [1, -1, -1 :: int] ! i = -1 \<longrightarrow> sum_list ([[1, 1], [1, 3], [2, 2 :: real]] ! i) \<noteq> 0)"
    by (simp add: nth_Cons split: nat.splits)
  from strategy_equivalence [OF wf pf _ _ _ _ range _ _ sums,
      of "[1 / 2, -2, -2]" "[1 / 5, 7]"]
  obtain r v w1 b1 w2 b2 w3 where
    run: "get_parameters_for_tree_trav_common [1, -1, -1] [2, -1, -1] [0, -2, -2] [1 / 2, -2, -2]
             [[1, 1], [1, 3], [2, 2]] = Inr r"
    and walk: "tree_trav_predict r [1 / 5, 7] = Some v"
    and layers: "get_parameters_for_gemm_common [1, -1, -1] [2, -1, -1] [0, -2, -2] [1 / 2, -2, -2]
             [[1, 1], [1, 3], [2, 2]] 2
           = Inr ([Weight w1, Weight w2, Weight w3], [Some b1, Some b2, None])"
    and eval: "gemm_predict w1 b1 w2 b2 w3 [1 / 5, 7] = normalized v"
    by auto
  have "\<exists>r'. get_parameters_for_tree_trav_common [1, -1, -1] [2, -1, -1] [0, -2, -2] [1 / 2, -2, -2]
             [[1, 1], [1, 3], [2, 2]] = Inr r'
          \<and> tree_trav_predict r' [1 / 5, 7] = Some [1, 3]"
    by (simp add: get_parameters_for_tree_trav_common_def tree_trav_common_body_def
        trav_step_def new_Node_def Let_def upt_rec tree_trav_predict_def numeral_3_eq_3)
  with run walk have v: "v = [1, 3]" by auto
  with eval have "gemm_predict w1 b1 w2 b2 w3 [1 / 5, 7] = [1 / 4, 3 / 4]"
    by (simp add: normalized_def)
  with wf pf run walk layers v show ?thesis by blast
qed

theorem strategies_differ_counterexample:
  "wf_tree [3, -1, -1, 1, -1] [4, -1, -1, 2, -1] (Split 0 (Split 3 (Leaf 1) (Leaf 2)) (Leaf 4))
   \<and> get_parameters_for_tree_trav_common [3, -1, -1, 1, -1] [4, -1, -1, 2, -1]
        [0, -2, -2, 1, -2] [5, -2, -2, 7, -2] [[0], [1], [2], [0], [3]]
      = Inl (KeyError 1)
   \<and> get_parameters_for_gemm_common [3, -1, -1, 1, -1] [4, -1, -1, 2, -1]
        [0, -2, -2, 1, -2] [5, -2, -2, 7, -2] [[0], [1], [2], [0], [3]] 2
      = Inr ([Weight [[1, 0], [0, 1]], Weight [[1, 1], [1, -1], [-1, 0]], Weight [[1, 2, 3]]],
             [Some [5, 7], Some [2, 1, 0], None])
   \<and> (\<exists>r. get_parameters_for_tree_trav_common [1, -1, -1] [2, -1, -1] [0, -2, -2]
              [1 / 2, -2, -2] [[1, 1], [1, 3], [2, 2]] = Inr r
          \<and> tree_trav_predict r [1 / 5, 7] = Some [1, 3])
   \<and> get_parameters_for_gemm_common [1, -1, -1] [2, -1, -1] [0, -2, -2]
        [1 / 2, -2, -2] [[1, 1], [1, 3], [2, 2]] 2
      = Inr ([Weight [[1, 0]], Weight [[1], [-1]], Weight [[1 / 4, 1 / 2], [3 / 4, 1 / 2]]],
             [Some [1 / 2], Some [1, 0], None])
   \<and> gemm_predict [[1, 0]] [1 / 2] [[1], [-1]] [1, 0] [[1 / 4, 1 / 2], [3 / 4, 1 / 2]] [1 / 5, 7]
      = [1 / 4, 3 / 4]"
proof -
  have a: "wf_tree [3, -1, -1, 1, -1] [4, -1, -1, 2, -1]
             (Split 0 (Split 3 (Leaf 1) (Leaf 2)) (Leaf 4))"
    by (simp add: wf_tree_def)
  have b: "get_parameters_for_tree_trav_common [3, -1, -1, 1, -1] [4, -1, -1, 2, -1]
        [0, -2, -2, 1, -2] [5, -2, -2, 7, -2] [[0], [1], [2], [0], [3]]
      = Inl (KeyError 1)"
    by (simp add: get_parameters_for_tree_trav_common_def tree_trav_common_body_def
        trav_step_def new_Node_def Let_def upt_rec)
  have c: "get_parameters_for_gemm_common [3, -1, -1, 1, -1] [4, -1, -1, 2, -1]
        [0, -2, -2, 1, -2] [5, -2, -2, 7, -2] [[0], [1], [2], [0], [3]] 2
      = Inr ([Weight [[1, 0], [0, 1]], Weight [[1, 1], [1, -1], [-1, 0]], Weight [[1, 2, 3]]],
             [Some [5, 7], Some [2, 1, 0], None])"
    by (simp add: get_parameters_for_gemm_common_def gemm_common_body_def split_layer_def
        gemm_loop.simps gemm_step_def py_set_def py_get_def py_index_def py_slice_to_def
        class_layer_def class_column_def shape_last_def Let_def upt_rec)
  have d: "\<exists>r. get_parameters_for_tree_trav_common [1, -1, -1] [2, -1, -1] [0, -2, -2]
              [1 / 2, -2, -2] [[1, 1], [1, 3], [2, 2]] = Inr r
          \<and> tree_trav_predict r [1 / 5, 7] = Some [1, 3]"
    by (simp add: get_parameters_for_tree_trav_common_def tree_trav_common_body_def
        trav_step_def new_Node_def Let_def upt_rec tree_trav_predict_def numeral_3_eq_3)
  have e: "get_parameters_for_gemm_common [1, -1, -1] [2, -1, -1] [0, -2, -2]
        [1 / 2, -2, -2] [[1, 1], [1, 3], [2, 2]] 2
      = Inr ([Weight [[1, 0]], Weight [[1], [-1]], Weight [[1 / 4, 1 / 2], [3 / 4, 1 / 2]]],
             [Some [1 / 2], Some [1, 0], None])"
    by (simp add: get_parameters_for_gemm_common_def gemm_common_body_def split_layer_def
        gemm_loop.simps gemm_step_def py_set_def py_get_def py_index_def py_slice_to_def
        class_layer_def class_column_def shape_last_def Let_def upt_rec)
  have f: "gemm_predict [[1, 0]] [1 / 2] [[1], [-1]] [1, 0] [[1 / 4, 1 / 2], [3 / 4, 1 / 2]]
        [1 / 5, 7] = [1 / 4, 3 / 4]"
    by (simp add: gemm_predict_def affine_def dot_def Let_def)
  from a b c d e f show ?thesis by blast
qed

end
